theory Spec2Isabelle
  imports Main "HOL-Library.AList"
begin

section \<open>Data model of \<open>gitlab_my_tasks.py\<close>\<close>

text \<open>
  The REST side works on JSON dictionaries. An issue is the dictionary returned by the
  issues endpoint; the fields read with \<open>.get\<close> are optional (\<open>None\<close> = key absent),
  the fields read with \<open>[...]\<close> are always present. The \<open>parent\<close> field is
  \<open>Some p\<close> when the issue carries a parent dictionary whose \<open>id\<close> is \<open>p\<close>, and
  \<open>None\<close> when the key is absent, null or an empty dictionary (all falsy in Python).
  Python compares dictionaries structurally, and so does HOL compare records.
\<close>

record issue =
  issue_id :: int
  iid :: int
  title :: string
  state :: string
  issue_type :: "string option"
  parent :: "int option"
  description :: "string option"

record link =
  link_iid :: int
  link_type :: "string option"

text \<open>
  What the requests library hands back: the status code and the decoded JSON body
  (\<open>None\<close> when the body does not decode). The body of the links sub-resource is a
  list of links.
\<close>

record 'a response =
  status_code :: nat
  json :: "'a option"

datatype error =
    HTTPError nat
  | JSONDecodeError
  | KeyError int
  | KeyErrorName string
  | AttributeError
  | TypeError

type_synonym transport = "int \<Rightarrow> int \<Rightarrow> link list response"

type_synonym children_map = "(int \<times> issue list) list"

section \<open>Relationship fetcher\<close>

text \<open>\<open>Response.raise_for_status\<close> of the requests library: client and server errors raise.\<close>

definition raise_for_status :: "'a response \<Rightarrow> error + unit" where
  "raise_for_status r =
     (if 400 \<le> status_code r \<and> status_code r < 600 then Inl (HTTPError (status_code r))
      else Inr ())"

definition get_issue_links :: "transport \<Rightarrow> int \<Rightarrow> int \<Rightarrow> error + link list" where
  "get_issue_links requests_get project_id issue_iid =
     (let response = requests_get project_id issue_iid in
      if status_code response = 404 then Inr []
      else (case raise_for_status response of
              Inl e \<Rightarrow> Inl e
            | Inr _ \<Rightarrow> (case json response of None \<Rightarrow> Inl JSONDecodeError | Some ls \<Rightarrow> Inr ls)))"

section \<open>Tree builder\<close>

text \<open>
  Python dictionaries keep insertion order; they are association lists here.
  \<open>d[k] = v\<close> is \<open>AList.update\<close> (overwrite in place, or append a new key), and
  \<open>d.setdefault(k, []).append(x)\<close> is \<open>setdefault_append\<close>.
\<close>

definition setdefault_append :: "int \<Rightarrow> issue \<Rightarrow> children_map \<Rightarrow> children_map" where
  "setdefault_append k x cm = AList.map_default k [x] (\<lambda>l. l @ [x]) cm"

text \<open>\<open>children_map.get(k, [])\<close>.\<close>

definition children_of :: "children_map \<Rightarrow> int \<Rightarrow> issue list" where
  "children_of cm k = (case map_of cm k of None \<Rightarrow> [] | Some cs \<Rightarrow> cs)"

definition issues_by_id_of :: "issue list \<Rightarrow> (int \<times> issue) list" where
  "issues_by_id_of issues = foldl (\<lambda>d i. AList.update (issue_id i) i d) [] issues"

definition iid_to_id_of :: "issue list \<Rightarrow> (int \<times> int) list" where
  "iid_to_id_of issues = foldl (\<lambda>d i. AList.update (iid i) (issue_id i) d) [] issues"

text \<open>\<open>parent and parent.get("id") in issues_by_id\<close>.\<close>

definition parent_known :: "(int \<times> issue) list \<Rightarrow> issue \<Rightarrow> bool" where
  "parent_known issues_by_id i =
     (case parent i of None \<Rightarrow> False | Some p \<Rightarrow> map_of issues_by_id p \<noteq> None)"

text \<open>First loop of \<open>build_issue_tree\<close>: the explicit parent references.\<close>

fun parent_pass :: "(int \<times> issue) list \<Rightarrow> issue list \<Rightarrow> children_map \<Rightarrow> children_map" where
  "parent_pass issues_by_id [] cm = cm"
| "parent_pass issues_by_id (i # rest) cm =
     parent_pass issues_by_id rest
       (case parent i of
          None \<Rightarrow> cm
        | Some p \<Rightarrow> if map_of issues_by_id p \<noteq> None then setdefault_append p i cm else cm)"

text \<open>\<open>issue.get("type", "issue")\<close>.\<close>

definition get_type :: "issue \<Rightarrow> string" where
  "get_type i = (case issue_type i of None \<Rightarrow> ''issue'' | Some t \<Rightarrow> t)"

text \<open>
  Inner loop of the second pass: the links of one issue. \<open>linked_id\<close> must be truthy
  (present and not 0) and differ from the issue's own id.
\<close>

fun link_loop ::
  "(int \<times> int) list \<Rightarrow> (int \<times> issue) list \<Rightarrow> issue \<Rightarrow> link list \<Rightarrow> children_map
     \<Rightarrow> error + children_map" where
  "link_loop iid_to_id issues_by_id i [] cm = Inr cm"
| "link_loop iid_to_id issues_by_id i (l # rest) cm =
     (if link_type l = Some ''blocks'' then
        (case map_of iid_to_id (link_iid l) of
           None \<Rightarrow> link_loop iid_to_id issues_by_id i rest cm
         | Some linked_id \<Rightarrow>
             if linked_id \<noteq> 0 \<and> linked_id \<noteq> issue_id i then
               (case map_of issues_by_id linked_id of
                  None \<Rightarrow> Inl (KeyError linked_id)
                | Some target \<Rightarrow>
                    link_loop iid_to_id issues_by_id i rest
                      (setdefault_append (issue_id i) target cm))
             else link_loop iid_to_id issues_by_id i rest cm)
      else link_loop iid_to_id issues_by_id i rest cm)"

text \<open>Second loop of \<open>build_issue_tree\<close>: one link fetch per issue of type \<open>issue\<close>.\<close>

fun link_pass ::
  "transport \<Rightarrow> int \<Rightarrow> (int \<times> int) list \<Rightarrow> (int \<times> issue) list \<Rightarrow> issue list \<Rightarrow> children_map
     \<Rightarrow> error + children_map" where
  "link_pass requests_get project_id iid_to_id issues_by_id [] cm = Inr cm"
| "link_pass requests_get project_id iid_to_id issues_by_id (i # rest) cm =
     (if get_type i = ''issue'' then
        (case get_issue_links requests_get project_id (iid i) of
           Inl e \<Rightarrow> Inl e
         | Inr links \<Rightarrow>
             (case link_loop iid_to_id issues_by_id i links cm of
                Inl e \<Rightarrow> Inl e
              | Inr cm' \<Rightarrow> link_pass requests_get project_id iid_to_id issues_by_id rest cm'))
      else link_pass requests_get project_id iid_to_id issues_by_id rest cm)"

text \<open>Third loop: \<open>is_child\<close> as computed for one issue, and the roots.\<close>

definition is_child :: "(int \<times> issue) list \<Rightarrow> children_map \<Rightarrow> issue \<Rightarrow> bool" where
  "is_child issues_by_id cm i =
     (parent_known issues_by_id i \<or> list_ex (\<lambda>siblings. i \<in> set siblings) (map snd cm))"

definition root_pass :: "(int \<times> issue) list \<Rightarrow> children_map \<Rightarrow> issue list \<Rightarrow> issue list" where
  "root_pass issues_by_id cm issues = filter (\<lambda>i. \<not> is_child issues_by_id cm i) issues"

definition build_issue_tree ::
  "transport \<Rightarrow> int \<Rightarrow> issue list
     \<Rightarrow> error + ((int \<times> issue) list \<times> children_map \<times> issue list)" where
  "build_issue_tree requests_get project_id issues =
     (let issues_by_id = issues_by_id_of issues;
          iid_to_id = iid_to_id_of issues;
          children_map = parent_pass issues_by_id issues []
      in case link_pass requests_get project_id iid_to_id issues_by_id issues children_map of
           Inl e \<Rightarrow> Inl e
         | Inr children_map' \<Rightarrow>
             Inr (issues_by_id, children_map', root_pass issues_by_id children_map' issues))"

section \<open>Declarative description of the tree builder's result\<close>

text \<open>
  The children a single link contributes to the linking issue \<open>i\<close>: the issue the
  link's display id resolves to, when the link is a \<open>blocks\<close> link and the resolved id is
  truthy and not \<open>i\<close>'s own id; nothing otherwise.
\<close>

definition blocks_target ::
  "(int \<times> int) list \<Rightarrow> (int \<times> issue) list \<Rightarrow> issue \<Rightarrow> link \<Rightarrow> issue list" where
  "blocks_target iid_to_id issues_by_id i l =
     (if link_type l = Some ''blocks'' then
        (case map_of iid_to_id (link_iid l) of
           None \<Rightarrow> []
         | Some linked_id \<Rightarrow>
             if linked_id \<noteq> 0 \<and> linked_id \<noteq> issue_id i then
               (case map_of issues_by_id linked_id of None \<Rightarrow> [] | Some target \<Rightarrow> [target])
             else [])
      else [])"

text \<open>The links fetched for an issue (empty when the fetch fails).\<close>

definition links_of :: "transport \<Rightarrow> int \<Rightarrow> issue \<Rightarrow> link list" where
  "links_of requests_get project_id i =
     (case get_issue_links requests_get project_id (iid i) of Inl e \<Rightarrow> [] | Inr ls \<Rightarrow> ls)"

text \<open>All link-derived children of one input issue, in link order.\<close>

definition link_children ::
  "transport \<Rightarrow> int \<Rightarrow> (int \<times> int) list \<Rightarrow> (int \<times> issue) list \<Rightarrow> issue \<Rightarrow> issue list" where
  "link_children requests_get project_id iid_to_id issues_by_id i =
     (if get_type i = ''issue'' then
        concat (map (blocks_target iid_to_id issues_by_id i) (links_of requests_get project_id i))
      else [])"

text \<open>Issues whose explicit parent reference resolves to \<open>k\<close>, in input order.\<close>

definition parent_children :: "issue list \<Rightarrow> int \<Rightarrow> issue list" where
  "parent_children issues k =
     filter (\<lambda>i. parent i = Some k \<and> k \<in> set (map issue_id issues)) issues"

text \<open>An issue carries a parent reference that resolves within the input.\<close>

definition has_resolvable_parent :: "issue list \<Rightarrow> issue \<Rightarrow> bool" where
  "has_resolvable_parent issues i =
     (case parent i of None \<Rightarrow> False | Some p \<Rightarrow> p \<in> set (map issue_id issues))"

text \<open>An issue appears as a value in some entry of the children map.\<close>

definition appears_as_child :: "children_map \<Rightarrow> issue \<Rightarrow> bool" where
  "appears_as_child cm i = (\<exists>(k, cs) \<in> set cm. i \<in> set cs)"

text \<open>The parent-to-child edges of a children map, on ids.\<close>

definition child_edges :: "children_map \<Rightarrow> (int \<times> int) set" where
  "child_edges cm = {(k, issue_id c) | k c. c \<in> set (children_of cm k)}"

text \<open>No issue is listed under two different parents.\<close>

definition at_most_one_parent :: "children_map \<Rightarrow> bool" where
  "at_most_one_parent cm =
     (\<forall>k k' c. c \<in> set (children_of cm k) \<and> c \<in> set (children_of cm k') \<longrightarrow> k = k')"

text \<open>
  The relations of the input, on ids: every resolvable explicit parent reference, and every
  \<open>blocks\<close> link of an issue of type \<open>issue\<close> to a different issue of the input.
\<close>

definition input_edges :: "transport \<Rightarrow> int \<Rightarrow> issue list \<Rightarrow> (int \<times> int) list" where
  "input_edges requests_get project_id issues =
     concat (map (\<lambda>i. case parent i of
                        None \<Rightarrow> []
                      | Some p \<Rightarrow> if p \<in> set (map issue_id issues) then [(p, issue_id i)] else [])
               issues) @
     concat (map (\<lambda>i. if get_type i = ''issue'' then
                        concat (map (\<lambda>l. if link_type l = Some ''blocks'' then
                                            map (\<lambda>j. (issue_id i, issue_id j))
                                              (filter (\<lambda>j. iid j = link_iid l \<and> issue_id j \<noteq> issue_id i)
                                                 issues)
                                          else [])
                                  (links_of requests_get project_id i))
                      else []) issues)"

text \<open>Every parent reference and every \<open>blocks\<close> link target resolves within the input.\<close>

definition all_resolvable :: "transport \<Rightarrow> int \<Rightarrow> issue list \<Rightarrow> bool" where
  "all_resolvable requests_get project_id issues =
     ((\<forall>i \<in> set issues. \<forall>p. parent i = Some p \<longrightarrow> p \<in> set (map issue_id issues)) \<and>
      (\<forall>i \<in> set issues. \<forall>l \<in> set (links_of requests_get project_id i).
         link_type l = Some ''blocks'' \<longrightarrow> link_iid l \<in> set (map iid issues)))"

text \<open>The ids reached from the roots by following children-map edges.\<close>

definition reachable_ids :: "children_map \<Rightarrow> issue list \<Rightarrow> int set" where
  "reachable_ids cm roots = (child_edges cm)\<^sup>* `` set (map issue_id roots)"

section \<open>Sample inputs of the tree builder\<close>

text \<open>A transport that answers every links request with an empty list.\<close>

definition ok_empty :: transport where
  "ok_empty project_id issue_iid = \<lparr>status_code = 200, json = Some []\<rparr>"

definition ex_root :: issue where
  "ex_root = \<lparr>issue_id = 10, iid = 1, title = ''epic'', state = ''opened'',
     issue_type = Some ''issue'', parent = None, description = None\<rparr>"

definition ex_task :: issue where
  "ex_task = \<lparr>issue_id = 20, iid = 2, title = ''task'', state = ''opened'',
     issue_type = Some ''task'', parent = Some 10, description = None\<rparr>"

text \<open>An issue whose parent reference names an id that was not fetched.\<close>

definition ex_orphan :: issue where
  "ex_orphan = \<lparr>issue_id = 30, iid = 3, title = ''orphan'', state = ''closed'',
     issue_type = None, parent = Some 99, description = None\<rparr>"

text \<open>
  A task with an explicit parent that a second issue also names in a \<open>blocks\<close> link.
\<close>

definition fw_p1 :: issue where
  "fw_p1 = \<lparr>issue_id = 1, iid = 1, title = ''P1'', state = ''opened'',
     issue_type = Some ''issue'', parent = None, description = None\<rparr>"

definition fw_p2 :: issue where
  "fw_p2 = \<lparr>issue_id = 2, iid = 2, title = ''P2'', state = ''opened'',
     issue_type = Some ''issue'', parent = None, description = None\<rparr>"

definition fw_x :: issue where
  "fw_x = \<lparr>issue_id = 3, iid = 3, title = ''X'', state = ''opened'',
     issue_type = Some ''task'', parent = Some 1, description = None\<rparr>"

definition fw_transport :: transport where
  "fw_transport project_id issue_iid =
     (if issue_iid = 2 then \<lparr>status_code = 200, json = Some [\<lparr>link_iid = 3, link_type = Some ''blocks''\<rparr>]\<rparr>
      else \<lparr>status_code = 200, json = Some []\<rparr>)"

text \<open>
  Three issues without parent references: the first blocks the second, the second blocks
  the third, and the third blocks the second.
\<close>

definition cy_r :: issue where
  "cy_r = \<lparr>issue_id = 1, iid = 1, title = ''R'', state = ''opened'',
     issue_type = Some ''issue'', parent = None, description = None\<rparr>"

definition cy_a :: issue where
  "cy_a = \<lparr>issue_id = 2, iid = 2, title = ''A'', state = ''opened'',
     issue_type = Some ''issue'', parent = None, description = None\<rparr>"

definition cy_b :: issue where
  "cy_b = \<lparr>issue_id = 3, iid = 3, title = ''B'', state = ''opened'',
     issue_type = Some ''issue'', parent = None, description = None\<rparr>"

definition cy_transport :: transport where
  "cy_transport project_id issue_iid =
     (if issue_iid = 1 then \<lparr>status_code = 200, json = Some [\<lparr>link_iid = 2, link_type = Some ''blocks''\<rparr>]\<rparr>
      else if issue_iid = 2 then \<lparr>status_code = 200, json = Some [\<lparr>link_iid = 3, link_type = Some ''blocks''\<rparr>]\<rparr>
      else \<lparr>status_code = 200, json = Some [\<lparr>link_iid = 2, link_type = Some ''blocks''\<rparr>]\<rparr>)"

text \<open>
  An issue with a \<open>blocks\<close> link to itself, a \<open>relates_to\<close> link and a \<open>blocks\<close> link
  to the sample task.
\<close>

definition sl_transport :: transport where
  "sl_transport project_id issue_iid =
     \<lparr>status_code = 200,
      json = Some [\<lparr>link_iid = 1, link_type = Some ''blocks''\<rparr>,
                   \<lparr>link_iid = 2, link_type = Some ''relates_to''\<rparr>,
                   \<lparr>link_iid = 2, link_type = Some ''blocks''\<rparr>]\<rparr>"

text \<open>
  A transport whose links sub-resource is missing for display id 1, fails with a server
  error for display id 3, and is empty otherwise.
\<close>

definition nf_transport :: transport where
  "nf_transport project_id issue_iid =
     (if issue_iid = 1 then \<lparr>status_code = 404, json = None\<rparr>
      else if issue_iid = 3 then \<lparr>status_code = 500, json = None\<rparr>
      else \<lparr>status_code = 200, json = Some []\<rparr>)"

text \<open>
  A transport that answers every links request with status 302 and a body holding one
  \<open>blocks\<close> link to display id 2.
\<close>

definition rd_transport :: transport where
  "rd_transport project_id issue_iid =
     \<lparr>status_code = 302, json = Some [\<lparr>link_iid = 2, link_type = Some ''blocks''\<rparr>]\<rparr>"

text \<open>An issue whose explicit parent reference names the issue itself.\<close>

definition sp_issue :: issue where
  "sp_issue = \<lparr>issue_id = 10, iid = 1, title = ''loop'', state = ''opened'',
     issue_type = Some ''issue'', parent = Some 10, description = None\<rparr>"

section \<open>Checklist parser\<close>

text \<open>
  Strings are lists of characters with code points below 256. \<open>str.splitlines\<close> breaks
  at line feed, vertical tab, form feed, carriage return (with a following line feed
  taken as part of the same break), the file, group and record separators and NEL;
  \<open>str.strip\<close> removes these, the tab, the unit separator, the space and the
  no-break space from both ends.
\<close>

definition is_linebreak :: "char \<Rightarrow> bool" where
  "is_linebreak c =
     (c \<in> set [CHR 0x0A, CHR 0x0B, CHR 0x0C, CHR 0x0D, CHR 0x1C, CHR 0x1D, CHR 0x1E, CHR 0x85])"

definition isspace :: "char \<Rightarrow> bool" where
  "isspace c =
     (c \<in> set [CHR 0x09, CHR 0x0A, CHR 0x0B, CHR 0x0C, CHR 0x0D, CHR 0x1C, CHR 0x1D, CHR 0x1E,
                CHR 0x1F, CHR 0x20, CHR 0x85, CHR 0xA0])"

text \<open>\<open>splitlines\<close>, with the line read so far as an accumulator.\<close>

fun split_acc :: "string \<Rightarrow> string \<Rightarrow> string list" where
  "split_acc cur [] = (if cur = [] then [] else [cur])"
| "split_acc cur (c # cs) =
     (if c = CHR 0x0D then
        (case cs of
           [] \<Rightarrow> [cur]
         | d # ds \<Rightarrow> if d = CHR 0x0A then cur # split_acc [] ds else cur # split_acc [] cs)
      else if is_linebreak c then cur # split_acc [] cs
      else split_acc (cur @ [c]) cs)"

definition splitlines :: "string \<Rightarrow> string list" where
  "splitlines s = split_acc [] s"

definition strip :: "string \<Rightarrow> string" where
  "strip s = rev (dropWhile isspace (rev (dropWhile isspace s)))"

text \<open>
  \<open>re.match(r"^- \[( |x)\] (.+)$", s)\<close>: the result is the pair of the two groups. The
  dot matches every character but the line feed, and \<open>$\<close> matches at the end of the
  string or before a line feed that ends it.
\<close>

definition re_match :: "string \<Rightarrow> (char \<times> string) option" where
  "re_match s =
     (if 6 \<le> length s \<and> take 3 s = ''- ['' \<and> (s ! 3 = CHR '' '' \<or> s ! 3 = CHR ''x'')
         \<and> take 2 (drop 4 s) = ''] '' then
        (let text = takeWhile (\<lambda>c. c \<noteq> CHR 0x0A) (drop 6 s);
             rest = dropWhile (\<lambda>c. c \<noteq> CHR 0x0A) (drop 6 s)
         in if text \<noteq> [] \<and> (rest = [] \<or> rest = [CHR 0x0A]) then Some (s ! 3, text) else None)
      else None)"

text \<open>The body of the loop over the lines.\<close>

definition parse_line :: "string \<Rightarrow> (bool \<times> string) option" where
  "parse_line line =
     (case re_match (strip line) of
        None \<Rightarrow> None
      | Some (group1, group2) \<Rightarrow> Some (group1 = CHR ''x'', group2))"

definition parse_tasks_from_description :: "string option \<Rightarrow> (bool \<times> string) list" where
  "parse_tasks_from_description desc =
     (case desc of
        None \<Rightarrow> []
      | Some d \<Rightarrow> if d = [] then [] else List.map_filter parse_line (splitlines d))"

text \<open>
  The spec's words for one line: the line, leading and trailing whitespace ignored, is
  \<open>- [x] text\<close> or \<open>- [ ] text\<close> with a non-empty text.
\<close>

definition checkbox_line :: "string \<Rightarrow> (bool \<times> string) option" where
  "checkbox_line line =
     (let s = strip line in
      if take 6 s = ''- [x] '' \<and> drop 6 s \<noteq> [] then Some (True, drop 6 s)
      else if take 6 s = ''- [ ] '' \<and> drop 6 s \<noteq> [] then Some (False, drop 6 s)
      else None)"

section \<open>Hierarchy walker (GraphQL variant)\<close>

text \<open>
  A work item is the JSON object of the GraphQL response. A key of such an object is
  absent (\<open>Missing\<close>), present with the JSON value null (\<open>Null\<close>), or present with a
  value of the type the query yields (\<open>Val\<close>). \<open>workItemType\<close> is the object holding the
  key \<open>name\<close>, \<open>children\<close> the object holding the key \<open>nodes\<close>.
\<close>

datatype 'a field = Missing | Null | Val 'a

datatype workitem =
  WorkItem
    (wi_title: "string field")
    (wi_iid: "string field")
    (wi_state: "string field")
    (wi_createdAt: "string field")
    (wi_workItemType: "string field field")
    (wi_widgets: "widget list field")
and widget =
  Widget
    (w_type: "string field")
    (w_hasChildren: "bool field")
    (w_children: "workitem list field field")

text \<open>
  The part of the interpreter state the walker touches: the console, the list objects by
  address (the \<open>lines\<close> accumulator is one of them, shared by all recursive calls), the
  next unused address, and the GraphQL requests sent so far.
\<close>

record gql_request =
  req_id :: string
  req_pageSize :: nat
  req_endCursor :: string

record pystate =
  stdout :: "string list"
  lists :: "nat \<Rightarrow> string list"
  fresh :: nat
  requests :: "gql_request list"

text \<open>\<open>d.get(key, default)\<close> formatted into an f-string: a null prints as \<open>None\<close>.\<close>

definition get_str :: "string field \<Rightarrow> string \<Rightarrow> string" where
  "get_str f dflt = (case f of Missing \<Rightarrow> dflt | Null \<Rightarrow> ''None'' | Val v \<Rightarrow> v)"

text \<open>\<open>workitem.get("workItemType", {}).get("name", "?")\<close>.\<close>

definition get_wtype :: "string field field \<Rightarrow> error + string" where
  "get_wtype f =
     (case f of
        Missing \<Rightarrow> Inr ''?''
      | Null \<Rightarrow> Inl AttributeError
      | Val t \<Rightarrow> Inr (get_str t ''?''))"

text \<open>\<open>workitem.get("createdAt", "").split("T")[0]\<close>.\<close>

definition get_created_at :: "string field \<Rightarrow> error + string" where
  "get_created_at f =
     (case f of
        Missing \<Rightarrow> Inr []
      | Null \<Rightarrow> Inl AttributeError
      | Val v \<Rightarrow> Inr (takeWhile (\<lambda>c. c \<noteq> CHR ''T'') v))"

text \<open>\<open>"    " * indent + "- "\<close>.\<close>

definition prefix_of :: "nat \<Rightarrow> string" where
  "prefix_of indent = concat (replicate indent ''    '') @ ''- ''"

text \<open>The f-string of \<open>print_workitem_hierarchy\<close>.\<close>

definition format_line :: "string \<Rightarrow> string \<Rightarrow> string \<Rightarrow> string \<Rightarrow> string \<Rightarrow> string \<Rightarrow> string" where
  "format_line prefix wtype iid_s state_s created_at title_s =
     prefix @ ''['' @ wtype @ ''] #'' @ iid_s @ '' | '' @ state_s @ '' | '' @ created_at
       @ '' | '' @ title_s"

text \<open>
  The line of one work item: the reads happen in the order type, title, iid, state,
  creation date, and the first failing one raises.
\<close>

definition line_of :: "workitem \<Rightarrow> nat \<Rightarrow> error + string" where
  "line_of wi indent =
     (case get_wtype (wi_workItemType wi) of
        Inl e \<Rightarrow> Inl e
      | Inr wtype \<Rightarrow>
          (case get_created_at (wi_createdAt wi) of
             Inl e \<Rightarrow> Inl e
           | Inr created_at \<Rightarrow>
               Inr (format_line (prefix_of indent) wtype (get_str (wi_iid wi) [])
                      (get_str (wi_state wi) []) created_at (get_str (wi_title wi) []))))"

text \<open>\<open>widget.get("children", {}).get("nodes", [])\<close>, and the \<open>for\<close> over the result.\<close>

definition children_nodes :: "workitem list field field \<Rightarrow> error + workitem list" where
  "children_nodes f =
     (case f of
        Missing \<Rightarrow> Inr []
      | Null \<Rightarrow> Inl AttributeError
      | Val conn \<Rightarrow> (case conn of Missing \<Rightarrow> Inr [] | Null \<Rightarrow> Inl TypeError | Val cs \<Rightarrow> Inr cs))"

text \<open>\<open>print(line)\<close> followed by \<open>lines.append(line)\<close> on the list at address \<open>r\<close>.\<close>

definition emit :: "string \<Rightarrow> nat \<Rightarrow> pystate \<Rightarrow> pystate" where
  "emit line r s = s\<lparr>stdout := stdout s @ [line], lists := (lists s)(r := lists s r @ [line])\<rparr>"

text \<open>\<open>if lines is None: lines = []\<close>: a new list object at the next unused address.\<close>

definition lines_or_new :: "nat option \<Rightarrow> pystate \<Rightarrow> nat \<times> pystate" where
  "lines_or_new lines s =
     (case lines of
        None \<Rightarrow> (fresh s, s\<lparr>lists := (lists s)(fresh s := []), fresh := Suc (fresh s)\<rparr>)
      | Some r \<Rightarrow> (r, s))"

text \<open>
  \<open>print_workitem_hierarchy\<close> with its two nested \<open>for\<close> loops. The recursive calls
  pass the address of the accumulator and their return value is dropped. The result is
  the returned address or the exception, together with the state reached.
\<close>

function print_workitem_hierarchy ::
    "workitem \<Rightarrow> nat \<Rightarrow> nat option \<Rightarrow> pystate \<Rightarrow> (error + nat) \<times> pystate"
  and widgets_loop :: "widget list \<Rightarrow> nat \<Rightarrow> nat \<Rightarrow> pystate \<Rightarrow> (error + unit) \<times> pystate"
  and children_loop :: "workitem list \<Rightarrow> nat \<Rightarrow> nat \<Rightarrow> pystate \<Rightarrow> (error + unit) \<times> pystate"
where
  "print_workitem_hierarchy wi indent lines s =
     (case lines_or_new lines s of (r, s1) \<Rightarrow>
        (case line_of wi indent of
           Inl e \<Rightarrow> (Inl e, s1)
         | Inr line \<Rightarrow>
             (case wi_widgets wi of
                Missing \<Rightarrow> (Inr r, emit line r s1)
              | Null \<Rightarrow> (Inl TypeError, emit line r s1)
              | Val widgets \<Rightarrow>
                  (case widgets_loop widgets indent r (emit line r s1) of
                     (Inl e, s2) \<Rightarrow> (Inl e, s2)
                   | (Inr u, s2) \<Rightarrow> (Inr r, s2)))))"
| "widgets_loop [] indent r s = (Inr (), s)"
| "widgets_loop (w # rest) indent r s =
     (if w_type w = Val ''HIERARCHY'' then
        (case children_nodes (w_children w) of
           Inl e \<Rightarrow> (Inl e, s)
         | Inr children \<Rightarrow>
             (case children_loop children indent r s of
                (Inl e, s1) \<Rightarrow> (Inl e, s1)
              | (Inr u, s1) \<Rightarrow> widgets_loop rest indent r s1))
      else widgets_loop rest indent r s)"
| "children_loop [] indent r s = (Inr (), s)"
| "children_loop (child # rest) indent r s =
     (case print_workitem_hierarchy child (indent + 1) (Some r) s of
        (Inl e, s1) \<Rightarrow> (Inl e, s1)
      | (Inr u, s1) \<Rightarrow> children_loop rest indent r s1)"
  by pat_completeness auto
termination
proof (relation "measure (\<lambda>x. case x of
         Inl (wi, _) \<Rightarrow> size wi
       | Inr (Inl (ws, _)) \<Rightarrow> size_list size ws
       | Inr (Inr (cs, _)) \<Rightarrow> size_list size cs)", goal_cases)
  case 1
  show ?case by simp
next
  case (2 wi indent lines s r s1 line widgets)
  then show ?case by (cases wi) simp
next
  case (3 w rest indent r s children)
  then have "size_list size children \<le> size_field (size_field (size_list size)) (w_children w)"
    by (auto simp: children_nodes_def split: field.splits)
  then show ?case by (cases w) simp
next
  case 4
  then show ?case by simp
next
  case 5
  then show ?case by simp
next
  case 6
  then show ?case by simp
next
  case 7
  then show ?case by simp
qed

declare print_workitem_hierarchy.simps [simp del]

text \<open>
  The lines of a work item and of everything embedded below it, depth first: the item's
  own line, then for each \<open>HIERARCHY\<close> widget in turn the lines of each child node in
  turn, one level deeper.
\<close>

function render :: "workitem \<Rightarrow> nat \<Rightarrow> string list"
  and render_widgets :: "widget list \<Rightarrow> nat \<Rightarrow> string list"
  and render_children :: "workitem list \<Rightarrow> nat \<Rightarrow> string list"
where
  "render wi indent =
     (case line_of wi indent of
        Inl e \<Rightarrow> []
      | Inr line \<Rightarrow>
          line # (case wi_widgets wi of Val widgets \<Rightarrow> render_widgets widgets indent | _ \<Rightarrow> []))"
| "render_widgets [] indent = []"
| "render_widgets (w # rest) indent =
     (if w_type w = Val ''HIERARCHY'' then
        (case children_nodes (w_children w) of
           Inl e \<Rightarrow> []
         | Inr children \<Rightarrow> render_children children indent)
      else []) @ render_widgets rest indent"
| "render_children [] indent = []"
| "render_children (child # rest) indent =
     render child (indent + 1) @ render_children rest indent"
  by pat_completeness auto
termination
proof (relation "measure (\<lambda>x. case x of
         Inl (wi, _) \<Rightarrow> size wi
       | Inr (Inl (ws, _)) \<Rightarrow> size_list size ws
       | Inr (Inr (cs, _)) \<Rightarrow> size_list size cs)", goal_cases)
  case 1
  show ?case by simp
next
  case (2 wi indent line widgets)
  then show ?case by (cases wi) simp
next
  case (3 w rest indent children)
  then have "size_list size children \<le> size_field (size_field (size_list size)) (w_children w)"
    by (auto simp: children_nodes_def split: field.splits)
  then show ?case by (cases w) simp
next
  case 4
  then show ?case by simp
next
  case 5
  then show ?case by simp
next
  case 6
  then show ?case by simp
qed

declare render.simps [simp del]



text \<open>Printing and appending a sequence of lines, one after the other.\<close>

definition emit_all :: "string list \<Rightarrow> nat \<Rightarrow> pystate \<Rightarrow> pystate" where
  "emit_all ls r s = s\<lparr>stdout := stdout s @ ls, lists := (lists s)(r := lists s r @ ls)\<rparr>"

text \<open>
  \<open>fetch_workitem_hierarchy\<close>: one POST of the fixed two-level query with the variables
  \<open>id\<close>, \<open>pageSize\<close> and an empty \<open>endCursor\<close>; the answer is
  \<open>data["data"]["workItem"]\<close>, which may be null.
\<close>

type_synonym gql_transport = "gql_request \<Rightarrow> workitem field field response"

definition fetch_workitem_hierarchy ::
  "gql_transport \<Rightarrow> string \<Rightarrow> nat \<Rightarrow> pystate \<Rightarrow> (error + workitem option) \<times> pystate" where
  "fetch_workitem_hierarchy requests_post issue_gid page_size s =
     (let variables = \<lparr>req_id = issue_gid, req_pageSize = page_size, req_endCursor = []\<rparr>;
          s1 = s\<lparr>requests := requests s @ [variables]\<rparr>;
          response = requests_post variables
      in case raise_for_status response of
           Inl e \<Rightarrow> (Inl e, s1)
         | Inr u \<Rightarrow>
             (case json response of
                None \<Rightarrow> (Inl JSONDecodeError, s1)
              | Some body \<Rightarrow>
                  (case body of
                     Missing \<Rightarrow> (Inl (KeyErrorName ''data''), s1)
                   | Null \<Rightarrow> (Inl TypeError, s1)
                   | Val d \<Rightarrow>
                       (case d of
                          Missing \<Rightarrow> (Inl (KeyErrorName ''workItem''), s1)
                        | Null \<Rightarrow> (Inr None, s1)
                        | Val wi \<Rightarrow> (Inr (Some wi), s1)))))"

text \<open>
  The body of the main program's loop over the assigned work items: fetch with page size
  100, then render into \<open>output_lines\<close>. Rendering a null work item raises.
\<close>

definition walk_workitem ::
  "gql_transport \<Rightarrow> string \<Rightarrow> nat \<Rightarrow> pystate \<Rightarrow> (error + nat) \<times> pystate" where
  "walk_workitem requests_post gid output_lines s =
     (case fetch_workitem_hierarchy requests_post gid 100 s of
        (Inl e, s1) \<Rightarrow> (Inl e, s1)
      | (Inr None, s1) \<Rightarrow> (Inl AttributeError, s1)
      | (Inr (Some workitem), s1) \<Rightarrow> print_workitem_hierarchy workitem 0 (Some output_lines) s1)"

text \<open>
  The same response with the \<open>hasChildren\<close> key of every widget replaced by \<open>h\<close>, at
  every embedded level.
\<close>

function with_hasChildren :: "bool field \<Rightarrow> workitem \<Rightarrow> workitem"
  and with_hasChildren_widgets :: "bool field \<Rightarrow> widget list \<Rightarrow> widget list"
  and with_hasChildren_children :: "bool field \<Rightarrow> workitem list \<Rightarrow> workitem list"
where
  "with_hasChildren h wi =
     WorkItem (wi_title wi) (wi_iid wi) (wi_state wi) (wi_createdAt wi) (wi_workItemType wi)
       (case wi_widgets wi of
          Val widgets \<Rightarrow> Val (with_hasChildren_widgets h widgets)
        | Missing \<Rightarrow> Missing
        | Null \<Rightarrow> Null)"
| "with_hasChildren_widgets h [] = []"
| "with_hasChildren_widgets h (w # rest) =
     Widget (w_type w) h
       (case children_nodes (w_children w) of
          Inl e \<Rightarrow> w_children w
        | Inr children \<Rightarrow>
            (if w_children w = Val (Val children)
             then Val (Val (with_hasChildren_children h children)) else w_children w))
     # with_hasChildren_widgets h rest"
| "with_hasChildren_children h [] = []"
| "with_hasChildren_children h (child # rest) =
     with_hasChildren h child # with_hasChildren_children h rest"
  by pat_completeness auto
termination
proof (relation "measure (\<lambda>x. case x of
         Inl (_, wi) \<Rightarrow> size wi
       | Inr (Inl (_, ws)) \<Rightarrow> size_list size ws
       | Inr (Inr (_, cs)) \<Rightarrow> size_list size cs)", goal_cases)
  case 1
  show ?case by simp
next
  case (2 h wi widgets)
  then show ?case by (cases wi) simp
next
  case (3 h w rest children)
  then have "size_list size children \<le> size_field (size_field (size_list size)) (w_children w)"
    by (auto simp: children_nodes_def split: field.splits)
  then show ?case by (cases w) simp
next
  case 4
  then show ?case by simp
next
  case 5
  then show ?case by simp
next
  case 6
  then show ?case by simp
qed

declare with_hasChildren.simps [simp del]

section \<open>Sample inputs of the hierarchy walker\<close>

text \<open>
  A response as the two-level query yields it: the top item, one child and one
  grandchild. The grandchild comes without its widgets, so the response says nothing
  about what lies below it.
\<close>

definition wi_leaf :: workitem where
  "wi_leaf = WorkItem (Val ''Write docs'') (Val ''12'') (Val ''OPEN'')
     (Val ''2024-05-02T08:00:00Z'') (Val (Val ''Task'')) Missing"

definition wi_mid :: workitem where
  "wi_mid = WorkItem (Val ''Backend'') (Val ''11'') (Val ''OPEN'')
     (Val ''2024-05-01T10:30:00Z'') (Val (Val ''Issue''))
     (Val [Widget (Val ''HIERARCHY'') (Val True) (Val (Val [wi_leaf]))])"

definition wi_top :: workitem where
  "wi_top = WorkItem (Val ''Release'') (Val ''10'') (Val ''OPEN'')
     (Val ''2024-04-30T09:00:00Z'') (Val (Val ''Epic''))
     (Val [Widget (Val ''ASSIGNEES'') Missing Missing,
           Widget (Val ''HIERARCHY'') (Val True) (Val (Val [wi_mid]))])"

definition wi_top_lines :: "string list" where
  "wi_top_lines =
     [''- [Epic] #10 | OPEN | 2024-04-30 | Release'',
      ''    - [Issue] #11 | OPEN | 2024-05-01 | Backend'',
      ''        - [Task] #12 | OPEN | 2024-05-02 | Write docs'']"

text \<open>A work item with no key at all.\<close>

definition wi_bare :: workitem where
  "wi_bare = WorkItem Missing Missing Missing Missing Missing Missing"

text \<open>The state in which the main program starts rendering: \<open>output_lines\<close> at address 0.\<close>

definition s_main :: pystate where
  "s_main = \<lparr>stdout = [''header''], lists = (\<lambda>a. if a = 0 then [''header''] else []),
             fresh = 1, requests = []\<rparr>"


text \<open>A transport that answers every request with the sample response.\<close>

definition gql_top :: gql_transport where
  "gql_top variables = \<lparr>status_code = 200, json = Some (Val (Val wi_top))\<rparr>"

text \<open>The same response with every \<open>hasChildren\<close> flag false.\<close>

definition gql_top_flat :: gql_transport where
  "gql_top_flat variables =
     \<lparr>status_code = 200, json = Some (Val (Val (with_hasChildren (Val False) wi_top)))\<rparr>"

definition gid_top :: string where
  "gid_top = ''gid://gitlab/WorkItem/10''"


section \<open>Properties of the dictionaries\<close>

lemma map_of_by_id_fold:
  "map_of (foldl (\<lambda>d i. AList.update (issue_id i) i d) d issues) k = Some i \<Longrightarrow>
     map_of d k = Some i \<or> (i \<in> set issues \<and> issue_id i = k)"
  by (induction issues arbitrary: d) (fastforce simp: update_conv split: if_splits)+

lemma map_of_by_id:
  "map_of (issues_by_id_of issues) k = Some i \<Longrightarrow> i \<in> set issues \<and> issue_id i = k"
  unfolding issues_by_id_of_def using map_of_by_id_fold [of "[]" issues k i] by simp

lemma by_id_keys_fold:
  "fst ` set (foldl (\<lambda>d i. AList.update (issue_id i) i d) d issues) = fst ` set d \<union> issue_id ` set issues"
  by (induction issues arbitrary: d) (auto simp: dom_update)

lemma by_id_keys_None:
  "(map_of (issues_by_id_of issues) k = None) = (k \<notin> issue_id ` set issues)"
  unfolding issues_by_id_of_def using by_id_keys_fold [of "[]" issues]
  by (simp add: map_of_eq_None_iff)

lemma by_id_keys_Some:
  "(\<exists>y. map_of (issues_by_id_of issues) k = Some y) = (k \<in> issue_id ` set issues)"
  using by_id_keys_None [of issues k] by (cases "map_of (issues_by_id_of issues) k") auto

lemma children_of_Nil: "children_of [] k = []"
  by (simp add: children_of_def)

lemma map_of_iid_fold:
  "map_of (foldl (\<lambda>d i. AList.update (iid i) (issue_id i) d) d issues) n = Some k \<Longrightarrow>
     map_of d n = Some k \<or> (\<exists>j\<in>set issues. iid j = n \<and> issue_id j = k)"
  by (induction issues arbitrary: d) (fastforce simp: update_conv split: if_splits)+

lemma map_of_iid_to_id:
  "map_of (iid_to_id_of issues) n = Some k \<Longrightarrow> \<exists>j\<in>set issues. iid j = n \<and> issue_id j = k"
  unfolding iid_to_id_of_def using map_of_iid_fold [of "[]" issues n k] by simp

lemma children_of_setdefault:
  "children_of (setdefault_append k x cm) k' =
     (if k' = k then children_of cm k @ [x] else children_of cm k')"
  by (simp add: children_of_def setdefault_append_def map_of_map_default split: option.splits)

lemma distinct_setdefault:
  "distinct (map fst cm) \<Longrightarrow> distinct (map fst (setdefault_append k x cm))"
  by (simp add: setdefault_append_def distinct_map_default)

lemma parent_pass_children:
  "children_of (parent_pass byid issues cm) k =
     children_of cm k @ filter (\<lambda>i. parent i = Some k \<and> map_of byid k \<noteq> None) issues"
  by (induction issues arbitrary: cm)
     (auto simp: children_of_setdefault split: option.splits)

lemma parent_pass_distinct:
  "distinct (map fst cm) \<Longrightarrow> distinct (map fst (parent_pass byid issues cm))"
  by (induction issues arbitrary: cm) (auto simp: distinct_setdefault split: option.splits)

lemma link_loop_children:
  "link_loop i2i byid i links cm = Inr cm' \<Longrightarrow>
   children_of cm' k =
     children_of cm k @ (if k = issue_id i then concat (map (blocks_target i2i byid i) links) else [])"
  by (induction links arbitrary: cm)
     (auto simp: children_of_setdefault blocks_target_def split: option.splits if_splits)

lemma link_loop_distinct:
  "link_loop i2i byid i links cm = Inr cm' \<Longrightarrow> distinct (map fst cm) \<Longrightarrow> distinct (map fst cm')"
  by (induction links arbitrary: cm)
     (auto simp: distinct_setdefault split: option.splits if_splits)

lemma link_loop_total:
  "(\<And>n lid. map_of i2i n = Some lid \<Longrightarrow> map_of byid lid \<noteq> None) \<Longrightarrow>
   \<exists>cm'. link_loop i2i byid i links cm = Inr cm'"
  by (induction links arbitrary: cm) (fastforce split: option.splits)+

lemma link_pass_children:
  "link_pass rg pid i2i byid issues cm = Inr cm' \<Longrightarrow>
   children_of cm' k =
     children_of cm k @
       concat (map (link_children rg pid i2i byid) (filter (\<lambda>i. issue_id i = k) issues))"
proof (induction issues arbitrary: cm)
  case Nil
  then show ?case by simp
next
  case (Cons i rest)
  show ?case
  proof (cases "get_type i = ''issue''")
    case False
    with Cons show ?thesis by (simp add: link_children_def)
  next
    case True
    with Cons.prems obtain links cm1 where
      l: "get_issue_links rg pid (iid i) = Inr links" and
      c: "link_loop i2i byid i links cm = Inr cm1" and
      r: "link_pass rg pid i2i byid rest cm1 = Inr cm'"
      by (auto split: sum.splits)
    from Cons.IH [OF r] link_loop_children [OF c, of k] l True
    show ?thesis by (simp add: link_children_def links_of_def)
  qed
qed

lemma link_pass_distinct:
  "link_pass rg pid i2i byid issues cm = Inr cm' \<Longrightarrow> distinct (map fst cm) \<Longrightarrow>
   distinct (map fst cm')"
proof (induction issues arbitrary: cm)
  case Nil
  then show ?case by simp
next
  case (Cons i rest)
  then show ?case
    by (auto split: sum.splits if_splits dest: link_loop_distinct)
qed

lemma values_iff:
  "distinct (map fst cm) \<Longrightarrow>
   list_ex (\<lambda>s. i \<in> set s) (map snd cm) = (\<exists>k. i \<in> set (children_of cm k))"
  by (force simp: list_ex_iff children_of_def split: option.splits)

section \<open>The result of \<open>build_issue_tree\<close>\<close>

lemma build_parts:
  assumes "build_issue_tree rg pid issues = Inr (byid, cm, roots)"
  shows "byid = issues_by_id_of issues"
    and "link_pass rg pid (iid_to_id_of issues) (issues_by_id_of issues) issues
           (parent_pass (issues_by_id_of issues) issues []) = Inr cm"
    and "roots = root_pass (issues_by_id_of issues) cm issues"
  using assms by (auto simp: build_issue_tree_def Let_def split: sum.splits)

lemma build_children:
  assumes "build_issue_tree rg pid issues = Inr (byid, cm, roots)"
  shows "children_of cm k =
           parent_children issues k @
           concat (map (link_children rg pid (iid_to_id_of issues) (issues_by_id_of issues))
                     (filter (\<lambda>i. issue_id i = k) issues))"
proof -
  have "children_of (parent_pass (issues_by_id_of issues) issues []) k = parent_children issues k"
    by (simp add: parent_pass_children parent_children_def by_id_keys_Some children_of_Nil)
  with link_pass_children [OF build_parts(2) [OF assms], of k] show ?thesis by simp
qed

lemma build_distinct:
  assumes "build_issue_tree rg pid issues = Inr (byid, cm, roots)"
  shows "distinct (map fst cm)"
  using link_pass_distinct [OF build_parts(2) [OF assms]] parent_pass_distinct [of "[]"]
  by simp

lemma appears_as_child_iff:
  "distinct (map fst cm) \<Longrightarrow> appears_as_child cm i = (\<exists>k. i \<in> set (children_of cm k))"
  by (force simp: appears_as_child_def children_of_def split: option.splits)

lemma is_child_iff:
  assumes "distinct (map fst cm)"
  shows "is_child (issues_by_id_of issues) cm i =
           (has_resolvable_parent issues i \<or> appears_as_child cm i)"
  using assms
  by (simp add: is_child_def parent_known_def has_resolvable_parent_def by_id_keys_Some
        values_iff appears_as_child_iff split: option.splits)

section \<open>Where the entries of the children map come from\<close>

lemma blocks_target_cases:
  assumes "c \<in> set (blocks_target i2i byid i l)"
  shows "link_type l = Some ''blocks'' \<and>
         (\<exists>lid. map_of i2i (link_iid l) = Some lid \<and> lid \<noteq> 0 \<and> lid \<noteq> issue_id i
                \<and> map_of byid lid = Some c)"
proof (cases "link_type l = Some ''blocks''")
  case False
  with assms show ?thesis by (simp add: blocks_target_def)
next
  case b: True
  show ?thesis
  proof (cases "map_of i2i (link_iid l)")
    case None
    with assms b show ?thesis by (simp add: blocks_target_def)
  next
    case (Some lid)
    show ?thesis
    proof (cases "lid \<noteq> 0 \<and> lid \<noteq> issue_id i")
      case False
      with assms b Some show ?thesis by (auto simp add: blocks_target_def)
    next
      case True
      with assms b Some have "map_of byid lid = Some c"
        by (cases "map_of byid lid") (simp_all add: blocks_target_def)
      with b Some True show ?thesis by simp
    qed
  qed
qed

lemma blocks_target_elem:
  assumes "c \<in> set (blocks_target (iid_to_id_of issues) (issues_by_id_of issues) i l)"
  shows "link_type l = Some ''blocks'' \<and> c \<in> set issues \<and> issue_id c \<noteq> issue_id i
         \<and> issue_id c \<noteq> 0
         \<and> (\<exists>j \<in> set issues. iid j = link_iid l \<and> issue_id j = issue_id c)"
proof -
  from blocks_target_cases [OF assms] obtain lid where
    b: "link_type l = Some ''blocks''" and
    m: "map_of (iid_to_id_of issues) (link_iid l) = Some lid" and
    n: "lid \<noteq> 0" "lid \<noteq> issue_id i" and
    t: "map_of (issues_by_id_of issues) lid = Some c"
    by blast
  from map_of_by_id [OF t] have c: "c \<in> set issues" "issue_id c = lid" by simp_all
  from map_of_iid_to_id [OF m] c n b show ?thesis by auto
qed

lemma input_edges_parent:
  assumes "i \<in> set issues" "parent i = Some p" "p \<in> issue_id ` set issues"
  shows "(p, issue_id i) \<in> set (input_edges rg pid issues)"
proof -
  have "(p, issue_id i) \<in> set (case parent i of None \<Rightarrow> []
          | Some p \<Rightarrow> if p \<in> set (map issue_id issues) then [(p, issue_id i)] else [])"
    using assms by simp
  with assms(1) show ?thesis unfolding input_edges_def set_append set_concat set_map
    by blast
qed

lemma input_edges_link:
  assumes "i \<in> set issues" "get_type i = ''issue''" "l \<in> set (links_of rg pid i)"
    "link_type l = Some ''blocks''" "j \<in> set issues" "iid j = link_iid l"
    "issue_id j \<noteq> issue_id i"
  shows "(issue_id i, issue_id j) \<in> set (input_edges rg pid issues)"
proof -
  let ?per_link = "\<lambda>l. if link_type l = Some ''blocks'' then
                       map (\<lambda>j. (issue_id i, issue_id j))
                         (filter (\<lambda>j. iid j = link_iid l \<and> issue_id j \<noteq> issue_id i) issues)
                     else []"
  have "(issue_id i, issue_id j) \<in> set (?per_link l)"
    using assms by simp
  with assms(3) have "(issue_id i, issue_id j) \<in> set (concat (map ?per_link (links_of rg pid i)))"
    unfolding set_concat set_map by blast
  with assms(2) have "(issue_id i, issue_id j) \<in>
      set (if get_type i = ''issue'' then concat (map ?per_link (links_of rg pid i)) else [])"
    by simp
  with assms(1) show ?thesis unfolding input_edges_def set_append set_concat set_map
    by blast
qed

lemma link_children_elem:
  assumes "c \<in> set (link_children rg pid (iid_to_id_of issues) (issues_by_id_of issues) i)"
  shows "get_type i = ''issue'' \<and> c \<in> set issues \<and> issue_id c \<noteq> issue_id i
         \<and> (\<exists>l \<in> set (links_of rg pid i). link_type l = Some ''blocks''
               \<and> (\<exists>j \<in> set issues. iid j = link_iid l \<and> issue_id j = issue_id c))"
proof -
  from assms have g: "get_type i = ''issue''"
    by (auto simp: link_children_def split: if_splits)
  with assms obtain l where l: "l \<in> set (links_of rg pid i)"
    and c: "c \<in> set (blocks_target (iid_to_id_of issues) (issues_by_id_of issues) i l)"
    by (auto simp: link_children_def)
  from blocks_target_elem [OF c] g l show ?thesis by blast
qed

lemma build_child_cases:
  assumes "build_issue_tree rg pid issues = Inr (byid, cm, roots)"
    and "c \<in> set (children_of cm k)"
  shows "c \<in> set (parent_children issues k) \<or>
         (\<exists>i \<in> set issues. issue_id i = k \<and>
            c \<in> set (link_children rg pid (iid_to_id_of issues) (issues_by_id_of issues) i))"
  using assms(2) unfolding build_children [OF assms(1)] by auto

lemma parent_children_elem:
  "c \<in> set (parent_children issues k) =
     (c \<in> set issues \<and> parent c = Some k \<and> k \<in> issue_id ` set issues)"
  by (auto simp: parent_children_def)

lemma build_child_known:
  assumes "build_issue_tree rg pid issues = Inr (byid, cm, roots)"
    and "c \<in> set (children_of cm k)"
  shows "c \<in> set issues \<and> k \<in> issue_id ` set issues"
  using build_child_cases [OF assms]
  by (auto simp: parent_children_elem dest: link_children_elem)

lemma child_edges_input:
  assumes "build_issue_tree rg pid issues = Inr (byid, cm, roots)"
  shows "child_edges cm \<subseteq> set (input_edges rg pid issues)"
proof
  fix e assume "e \<in> child_edges cm"
  then obtain k c where e: "e = (k, issue_id c)" and c: "c \<in> set (children_of cm k)"
    by (auto simp: child_edges_def)
  from build_child_cases [OF assms c] show "e \<in> set (input_edges rg pid issues)"
  proof
    assume "c \<in> set (parent_children issues k)"
    then have "c \<in> set issues" "parent c = Some k" "k \<in> issue_id ` set issues"
      by (simp_all add: parent_children_elem)
    then show ?thesis unfolding e by (rule input_edges_parent)
  next
    assume "\<exists>i \<in> set issues. issue_id i = k \<and>
            c \<in> set (link_children rg pid (iid_to_id_of issues) (issues_by_id_of issues) i)"
    then obtain i where i: "i \<in> set issues" "issue_id i = k"
      and lc: "c \<in> set (link_children rg pid (iid_to_id_of issues) (issues_by_id_of issues) i)"
      by blast
    from link_children_elem [OF lc] obtain l j where
      g: "get_type i = ''issue''" and l: "l \<in> set (links_of rg pid i)"
      and b: "link_type l = Some ''blocks''" and j: "j \<in> set issues" "iid j = link_iid l"
      "issue_id j = issue_id c" and ne: "issue_id c \<noteq> issue_id i"
      by blast
    have "(issue_id i, issue_id j) \<in> set (input_edges rg pid issues)"
      using i(1) g l b j(1,2) ne j(3) by (intro input_edges_link) simp_all
    with i j show ?thesis unfolding e by simp
  qed
qed

lemma link_pass_error:
  assumes "i \<in> set issues" "get_type i = ''issue''"
    "get_issue_links rg pid (iid i) = Inl e"
  shows "\<exists>e'. link_pass rg pid i2i byid issues cm = Inl e'"
  using assms
proof (induction issues arbitrary: cm)
  case Nil
  then show ?case by simp
next
  case (Cons a rest)
  show ?case
  proof (cases "a = i")
    case True
    with Cons.prems show ?thesis by simp
  next
    case False
    with Cons.prems have "i \<in> set rest" by simp
    from Cons.IH [OF this Cons.prems(2,3)] show ?thesis
      by (auto split: sum.splits)
  qed
qed

section \<open>Roots, coverage and reachability\<close>

lemma child_edgesI: "c \<in> set (children_of cm k) \<Longrightarrow> (k, issue_id c) \<in> child_edges cm"
  by (auto simp: child_edges_def)

lemma build_roots:
  assumes "build_issue_tree rg pid issues = Inr (byid, cm, roots)"
  shows "roots = filter (\<lambda>i. \<not> has_resolvable_parent issues i \<and> \<not> appears_as_child cm i) issues"
  using build_parts(3) [OF assms] is_child_iff [OF build_distinct [OF assms]]
  by (simp add: root_pass_def)

lemma build_appears_iff:
  assumes "build_issue_tree rg pid issues = Inr (byid, cm, roots)"
  shows "appears_as_child cm c = (\<exists>k. c \<in> set (children_of cm k))"
  by (rule appears_as_child_iff [OF build_distinct [OF assms]])

lemma resolvable_parent_listed:
  assumes "build_issue_tree rg pid issues = Inr (byid, cm, roots)"
    and "i \<in> set issues" "has_resolvable_parent issues i"
  shows "\<exists>p. i \<in> set (children_of cm p)"
proof -
  from assms(3) obtain p where "parent i = Some p" "p \<in> issue_id ` set issues"
    by (auto simp: has_resolvable_parent_def split: option.splits)
  with assms(2) have "i \<in> set (parent_children issues p)"
    by (simp add: parent_children_elem)
  then have "i \<in> set (children_of cm p)"
    unfolding build_children [OF assms(1)] by simp
  then show ?thesis ..
qed

lemma non_root_listed:
  assumes "build_issue_tree rg pid issues = Inr (byid, cm, roots)"
    and "i \<in> set issues" "i \<notin> set roots"
  shows "\<exists>k. i \<in> set (children_of cm k)"
proof -
  from assms(2,3) have "has_resolvable_parent issues i \<or> appears_as_child cm i"
    unfolding build_roots [OF assms(1)] by auto
  then show ?thesis
    using resolvable_parent_listed [OF assms(1,2)] build_appears_iff [OF assms(1)]
    by blast
qed

lemma reachable_ids_known:
  assumes "build_issue_tree rg pid issues = Inr (byid, cm, roots)"
  shows "reachable_ids cm roots \<subseteq> issue_id ` set issues"
proof
  fix x assume "x \<in> reachable_ids cm roots"
  then obtain r where r: "r \<in> set roots" and p: "(issue_id r, x) \<in> (child_edges cm)\<^sup>*"
    by (auto simp: reachable_ids_def)
  from r have ri: "r \<in> set issues"
    unfolding build_roots [OF assms] by simp
  from p show "x \<in> issue_id ` set issues"
  proof (cases rule: rtranclE)
    case base
    with ri show ?thesis by blast
  next
    case (step y)
    from step(2) obtain c where "c \<in> set (children_of cm y)" "x = issue_id c"
      by (auto simp: child_edges_def)
    with build_child_known [OF assms] show ?thesis by blast
  qed
qed

lemma all_ids_reachable:
  assumes b: "build_issue_tree rg pid issues = Inr (byid, cm, roots)"
    and a: "acyclic (set (input_edges rg pid issues))"
  shows "issue_id ` set issues \<subseteq> reachable_ids cm roots"
proof -
  have "wf (set (input_edges rg pid issues))"
    using a by (simp add: finite_acyclic_wf)
  then have w: "wf (child_edges cm)"
    by (rule wf_subset) (rule child_edges_input [OF b])
  have "x \<in> issue_id ` set issues \<longrightarrow> x \<in> reachable_ids cm roots" for x
    using w
  proof (induction x rule: wf_induct_rule)
    case (less x)
    show ?case
    proof
      assume "x \<in> issue_id ` set issues"
      then obtain i where i: "i \<in> set issues" "issue_id i = x" by blast
      show "x \<in> reachable_ids cm roots"
      proof (cases "i \<in> set roots")
        case True
        with i show ?thesis unfolding reachable_ids_def by auto
      next
        case False
        from non_root_listed [OF b i(1) False] obtain k where k: "i \<in> set (children_of cm k)"
          by blast
        then have e: "(k, x) \<in> child_edges cm"
          using i(2) child_edgesI by blast
        from build_child_known [OF b k] have "k \<in> issue_id ` set issues" by simp
        with less e have "k \<in> reachable_ids cm roots" by blast
        with e show ?thesis unfolding reachable_ids_def
          by (auto intro: rtrancl_into_rtrancl)
      qed
    qed
  qed
  then show ?thesis by blast
qed

section \<open>Claims about the tree builder\<close>

lemmas build_defs = build_issue_tree_def issues_by_id_of_def iid_to_id_of_def
  get_issue_links_def raise_for_status_def get_type_def setdefault_append_def
  root_pass_def is_child_def parent_known_def Let_def

lemmas ex_issue_defs = ex_root_def ex_task_def ex_orphan_def

lemma ex_build:
  "build_issue_tree ok_empty 7 [ex_root, ex_task, ex_orphan] =
     Inr ([(10, ex_root), (20, ex_task), (30, ex_orphan)], [(10, [ex_task])],
          [ex_root, ex_orphan])"
  by (simp add: build_defs ok_empty_def ex_issue_defs)

text \<open>
  Claim C5. Whenever \<open>build_issue_tree\<close> returns, its root list is the input filtered,
  in input order, by: the issue has no parent reference that resolves within the input,
  and the issue is not a value of any children-map entry. In particular an issue whose
  parent reference names an id absent from the input is a root exactly when no
  children-map entry lists it.
\<close>

theorem root_determination:
  assumes "build_issue_tree requests_get project_id issues = Inr (issues_by_id, cm, roots)"
  shows "roots = filter (\<lambda>i. \<not> has_resolvable_parent issues i \<and> \<not> appears_as_child cm i) issues
       \<and> (\<forall>i \<in> set issues. \<forall>p. parent i = Some p \<longrightarrow> p \<notin> set (map issue_id issues) \<longrightarrow>
             (i \<in> set roots) = (\<not> appears_as_child cm i))"
proof -
  have r: "roots = filter (\<lambda>i. \<not> has_resolvable_parent issues i \<and> \<not> appears_as_child cm i) issues"
    using build_parts(3) [OF assms] is_child_iff [OF build_distinct [OF assms]]
    by (simp add: root_pass_def)
  have "\<forall>i \<in> set issues. \<forall>p. parent i = Some p \<longrightarrow> p \<notin> set (map issue_id issues) \<longrightarrow>
           (i \<in> set roots) = (\<not> appears_as_child cm i)"
    unfolding r by (auto simp: has_resolvable_parent_def)
  with r show ?thesis by blast
qed

theorem root_determination_witness:
  "build_issue_tree ok_empty 7 [ex_root, ex_task, ex_orphan] =
     Inr ([(10, ex_root), (20, ex_task), (30, ex_orphan)], [(10, [ex_task])],
          [ex_root, ex_orphan])
   \<and> [ex_root, ex_orphan] =
       filter (\<lambda>i. \<not> has_resolvable_parent [ex_root, ex_task, ex_orphan] i
                  \<and> \<not> appears_as_child [(10, [ex_task])] i) [ex_root, ex_task, ex_orphan]
   \<and> parent ex_orphan = Some 99 \<and> 99 \<notin> set (map issue_id [ex_root, ex_task, ex_orphan])
   \<and> (ex_orphan \<in> set [ex_root, ex_orphan]) = (\<not> appears_as_child [(10, [ex_task])] ex_orphan)"
proof -
  have p: "parent ex_orphan = Some 99"
    by (simp add: ex_orphan_def)
  have n: "99 \<notin> set (map issue_id [ex_root, ex_task, ex_orphan])"
    by (simp add: ex_issue_defs)
  have m: "ex_orphan \<in> set [ex_root, ex_task, ex_orphan]"
    by simp
  from root_determination [OF ex_build] p n m ex_build show ?thesis
    by blast
qed

section \<open>Claims about link fetching and self-links\<close>

lemma iid_to_id_known:
  "map_of (iid_to_id_of issues) n = Some lid \<Longrightarrow> map_of (issues_by_id_of issues) lid \<noteq> None"
proof -
  assume "map_of (iid_to_id_of issues) n = Some lid"
  from map_of_iid_to_id [OF this] have "lid \<in> issue_id ` set issues" by blast
  then show ?thesis by (simp add: by_id_keys_None)
qed

lemma link_pass_returns:
  assumes "\<And>n lid. map_of i2i n = Some lid \<Longrightarrow> map_of byid lid \<noteq> None"
    and "\<forall>j \<in> set issues. get_type j = ''issue'' \<longrightarrow>
           (\<exists>ls. get_issue_links rg pid (iid j) = Inr ls)"
  shows "\<exists>cm'. link_pass rg pid i2i byid issues cm = Inr cm'"
  using assms(2)
proof (induction issues arbitrary: cm)
  case Nil
  show ?case by simp
next
  case (Cons a rest)
  from Cons.prems have r: "\<forall>j \<in> set rest. get_type j = ''issue'' \<longrightarrow>
           (\<exists>ls. get_issue_links rg pid (iid j) = Inr ls)"
    by simp
  show ?case
  proof (cases "get_type a = ''issue''")
    case False
    with Cons.IH [OF r] show ?thesis by simp
  next
    case True
    with Cons.prems obtain ls where l: "get_issue_links rg pid (iid a) = Inr ls" by auto
    from link_loop_total [of i2i byid a ls cm] assms(1)
    obtain cm1 where c: "link_loop i2i byid a ls cm = Inr cm1" by blast
    from Cons.IH [OF r, of cm1] True l c show ?thesis by simp
  qed
qed

lemma build_returns:
  assumes "\<forall>j \<in> set issues. get_type j = ''issue'' \<longrightarrow>
           (\<exists>ls. get_issue_links rg pid (iid j) = Inr ls)"
  shows "\<exists>res. build_issue_tree rg pid issues = Inr res"
proof -
  from link_pass_returns [of "iid_to_id_of issues" "issues_by_id_of issues" issues rg pid
      "parent_pass (issues_by_id_of issues) issues []"] iid_to_id_known assms
  obtain cm' where "link_pass rg pid (iid_to_id_of issues) (issues_by_id_of issues) issues
      (parent_pass (issues_by_id_of issues) issues []) = Inr cm'"
    by blast
  then show ?thesis by (simp add: build_issue_tree_def Let_def)
qed

lemma nf_build:
  "build_issue_tree nf_transport 7 [ex_root, ex_task] =
     Inr ([(10, ex_root), (20, ex_task)], [(10, [ex_task])], [ex_root])"
  by (simp add: build_defs nf_transport_def ex_issue_defs)

lemma rd_build:
  "build_issue_tree rd_transport 7 [ex_root, ex_task] =
     Inr ([(10, ex_root), (20, ex_task)], [(10, [ex_task, ex_task])], [ex_root])"
  by (simp add: build_defs rd_transport_def ex_issue_defs)

text \<open>
  Claim C7, as stated, fails in its second half: only the statuses from 400 to 599 raise.
  A links answer with status 302 and a decodable body is neither a success nor a 404, yet
  \<open>get_issue_links\<close> returns its body, the link in it is registered and the run returns.
\<close>

theorem other_status_not_fatal_counterexample:
  "status_code (rd_transport 7 (iid ex_root)) = 302
   \<and> get_issue_links rd_transport 7 (iid ex_root) =
       Inr [\<lparr>link_iid = 2, link_type = Some ''blocks''\<rparr>]
   \<and> build_issue_tree rd_transport 7 [ex_root, ex_task] =
       Inr ([(10, ex_root), (20, ex_task)], [(10, [ex_task, ex_task])], [ex_root])"
proof -
  have "status_code (rd_transport 7 (iid ex_root)) = 302"
    by (simp add: rd_transport_def)
  moreover have "get_issue_links rd_transport 7 (iid ex_root) =
       Inr [\<lparr>link_iid = 2, link_type = Some ''blocks''\<rparr>]"
    by (simp add: get_issue_links_def raise_for_status_def rd_transport_def)
  ultimately show ?thesis using rd_build by blast
qed

text \<open>
  Claim C7, amended. When the links sub-resource answers 404 for an issue,
  \<open>get_issue_links\<close> returns the empty list, the issue contributes no link-derived
  child, the link pass goes on with the remaining issues on the unchanged children map,
  and \<open>build_issue_tree\<close> returns whenever every issue of type \<open>issue\<close> is answered
  with a 404 or with links. Any other status from 400 to 599 makes \<open>get_issue_links\<close>
  raise the HTTP error, and \<open>build_issue_tree\<close> fails whenever an input issue of type
  \<open>issue\<close> gets such an answer. A status outside 400 to 599 is no error: the decoded
  body is returned, and only a body that does not decode raises.
\<close>

theorem links_not_found_tolerated:
  "(status_code (requests_get project_id (iid i)) = 404 \<longrightarrow>
      get_issue_links requests_get project_id (iid i) = Inr [] \<and>
      link_children requests_get project_id iid_to_id issues_by_id i = [] \<and>
      link_pass requests_get project_id iid_to_id issues_by_id (i # rest) cm =
        link_pass requests_get project_id iid_to_id issues_by_id rest cm) \<and>
   ((\<forall>j \<in> set issues. get_type j = ''issue'' \<longrightarrow>
        status_code (requests_get project_id (iid j)) = 404 \<or>
        (\<exists>ls. get_issue_links requests_get project_id (iid j) = Inr ls)) \<longrightarrow>
      (\<exists>res. build_issue_tree requests_get project_id issues = Inr res)) \<and>
   (status_code (requests_get project_id (iid i)) \<noteq> 404 \<and>
    400 \<le> status_code (requests_get project_id (iid i)) \<and>
    status_code (requests_get project_id (iid i)) < 600 \<longrightarrow>
      get_issue_links requests_get project_id (iid i) =
        Inl (HTTPError (status_code (requests_get project_id (iid i)))) \<and>
      (get_type i = ''issue'' \<and> i \<in> set issues \<longrightarrow>
         (\<exists>e. build_issue_tree requests_get project_id issues = Inl e))) \<and>
   (\<not> (400 \<le> status_code (requests_get project_id (iid i)) \<and>
        status_code (requests_get project_id (iid i)) < 600) \<longrightarrow>
      get_issue_links requests_get project_id (iid i) =
        (case json (requests_get project_id (iid i)) of
           None \<Rightarrow> Inl JSONDecodeError
         | Some ls \<Rightarrow> Inr ls))"
proof (intro conjI impI)
  assume nf: "status_code (requests_get project_id (iid i)) = 404"
  then show l: "get_issue_links requests_get project_id (iid i) = Inr []"
    by (simp add: get_issue_links_def)
  then show "link_children requests_get project_id iid_to_id issues_by_id i = []"
    by (simp add: link_children_def links_of_def)
  show "link_pass requests_get project_id iid_to_id issues_by_id (i # rest) cm =
        link_pass requests_get project_id iid_to_id issues_by_id rest cm"
    by (simp add: l)
next
  assume a: "\<forall>j \<in> set issues. get_type j = ''issue'' \<longrightarrow>
        status_code (requests_get project_id (iid j)) = 404 \<or>
        (\<exists>ls. get_issue_links requests_get project_id (iid j) = Inr ls)"
  have "\<forall>j \<in> set issues. get_type j = ''issue'' \<longrightarrow>
        (\<exists>ls. get_issue_links requests_get project_id (iid j) = Inr ls)"
  proof (intro ballI impI)
    fix j assume "j \<in> set issues" "get_type j = ''issue''"
    with a have "status_code (requests_get project_id (iid j)) = 404 \<or>
        (\<exists>ls. get_issue_links requests_get project_id (iid j) = Inr ls)"
      by blast
    then show "\<exists>ls. get_issue_links requests_get project_id (iid j) = Inr ls"
    proof
      assume "status_code (requests_get project_id (iid j)) = 404"
      then have "get_issue_links requests_get project_id (iid j) = Inr []"
        by (simp add: get_issue_links_def)
      then show ?thesis ..
    qed
  qed
  then show "\<exists>res. build_issue_tree requests_get project_id issues = Inr res"
    by (rule build_returns)
next
  assume "status_code (requests_get project_id (iid i)) \<noteq> 404 \<and>
    400 \<le> status_code (requests_get project_id (iid i)) \<and>
    status_code (requests_get project_id (iid i)) < 600"
  then show l: "get_issue_links requests_get project_id (iid i) =
        Inl (HTTPError (status_code (requests_get project_id (iid i))))"
    by (simp add: get_issue_links_def raise_for_status_def)
  assume "get_type i = ''issue'' \<and> i \<in> set issues"
  with link_pass_error [of i issues requests_get project_id _ "iid_to_id_of issues"
      "issues_by_id_of issues" "parent_pass (issues_by_id_of issues) issues []"] l
  obtain e' where "link_pass requests_get project_id (iid_to_id_of issues)
      (issues_by_id_of issues) issues (parent_pass (issues_by_id_of issues) issues []) = Inl e'"
    by blast
  then show "\<exists>e. build_issue_tree requests_get project_id issues = Inl e"
    by (simp add: build_issue_tree_def)
next
  assume n: "\<not> (400 \<le> status_code (requests_get project_id (iid i)) \<and>
        status_code (requests_get project_id (iid i)) < 600)"
  then have "status_code (requests_get project_id (iid i)) \<noteq> 404" by auto
  with n show "get_issue_links requests_get project_id (iid i) =
        (case json (requests_get project_id (iid i)) of
           None \<Rightarrow> Inl JSONDecodeError
         | Some ls \<Rightarrow> Inr ls)"
    by (auto simp add: get_issue_links_def raise_for_status_def Let_def)
qed

theorem links_not_found_tolerated_witness:
  "status_code (nf_transport 7 (iid ex_root)) = 404 \<and>
   get_issue_links nf_transport 7 (iid ex_root) = Inr [] \<and>
   link_children nf_transport 7 [(1, 10), (2, 20)] [(10, ex_root), (20, ex_task)] ex_root = [] \<and>
   link_pass nf_transport 7 [] [] [ex_root, ex_task] [] = link_pass nf_transport 7 [] [] [ex_task] [] \<and>
   build_issue_tree nf_transport 7 [ex_root, ex_task] =
     Inr ([(10, ex_root), (20, ex_task)], [(10, [ex_task])], [ex_root]) \<and>
   (\<exists>res. build_issue_tree nf_transport 7 [ex_root, ex_task] = Inr res) \<and>
   status_code (nf_transport 7 (iid ex_orphan)) = 500 \<and>
   get_issue_links nf_transport 7 (iid ex_orphan) = Inl (HTTPError 500) \<and>
   (\<exists>e. build_issue_tree nf_transport 7 [ex_root, ex_task, ex_orphan] = Inl e) \<and>
   status_code (rd_transport 7 (iid ex_root)) = 302 \<and>
   get_issue_links rd_transport 7 (iid ex_root) =
     Inr [\<lparr>link_iid = 2, link_type = Some ''blocks''\<rparr>]"
proof -
  have a: "status_code (nf_transport 7 (iid ex_root)) = 404"
    by (simp add: nf_transport_def ex_root_def)
  have b: "status_code (nf_transport 7 (iid ex_orphan)) = 500"
    by (simp add: nf_transport_def ex_orphan_def)
  have c: "get_type ex_orphan = ''issue'' \<and> ex_orphan \<in> set [ex_root, ex_task, ex_orphan]"
    by (simp add: get_type_def ex_orphan_def)
  have d: "\<forall>j \<in> set [ex_root, ex_task]. get_type j = ''issue'' \<longrightarrow>
        status_code (nf_transport 7 (iid j)) = 404 \<or>
        (\<exists>ls. get_issue_links nf_transport 7 (iid j) = Inr ls)"
    by (simp add: nf_transport_def get_type_def ex_issue_defs)
  have r: "status_code (rd_transport 7 (iid ex_root)) = 302"
    by (simp add: rd_transport_def)
  have j: "json (rd_transport 7 (iid ex_root)) = Some [\<lparr>link_iid = 2, link_type = Some ''blocks''\<rparr>]"
    by (simp add: rd_transport_def)
  from links_not_found_tolerated [where requests_get = nf_transport and project_id = 7
      and i = ex_root and iid_to_id = "[(1, 10), (2, 20)]"
      and issues_by_id = "[(10, ex_root), (20, ex_task)]" and rest = "[ex_task]" and cm = "[]"
      and issues = "[ex_root, ex_task]"] a d
  have 1: "get_issue_links nf_transport 7 (iid ex_root) = Inr []"
    and 2: "link_children nf_transport 7 [(1, 10), (2, 20)] [(10, ex_root), (20, ex_task)] ex_root = []"
    and 4: "\<exists>res. build_issue_tree nf_transport 7 [ex_root, ex_task] = Inr res"
    by blast+
  from links_not_found_tolerated [where requests_get = nf_transport and project_id = 7
      and i = ex_root and iid_to_id = "[]" and issues_by_id = "[]" and rest = "[ex_task]"
      and cm = "[]"] a
  have 3: "link_pass nf_transport 7 [] [] [ex_root, ex_task] [] =
      link_pass nf_transport 7 [] [] [ex_task] []"
    by blast
  from links_not_found_tolerated [where requests_get = nf_transport and project_id = 7
      and i = ex_orphan and issues = "[ex_root, ex_task, ex_orphan]"] b c
  have 5: "get_issue_links nf_transport 7 (iid ex_orphan) = Inl (HTTPError 500) \<and>
     (\<exists>e. build_issue_tree nf_transport 7 [ex_root, ex_task, ex_orphan] = Inl e)"
    by simp
  from links_not_found_tolerated [where requests_get = rd_transport and project_id = 7
      and i = ex_root] r j
  have 6: "get_issue_links rd_transport 7 (iid ex_root) =
     Inr [\<lparr>link_iid = 2, link_type = Some ''blocks''\<rparr>]"
    by simp
  from a 1 2 3 nf_build 4 b 5 r 6 show ?thesis by blast
qed

lemma sl_build:
  "build_issue_tree sl_transport 7 [ex_root, ex_task] =
     Inr ([(10, ex_root), (20, ex_task)], [(10, [ex_task, ex_task])], [ex_root])"
  by (simp add: build_defs sl_transport_def ex_issue_defs)

lemma sp_build:
  "build_issue_tree sl_transport 7 [sp_issue] = Inr ([(10, sp_issue)], [(10, [sp_issue])], [])"
  by (simp add: build_defs sl_transport_def sp_issue_def)

text \<open>
  Claim C8, as stated, fails: the guard only keeps the link from registering. An issue
  that carries a \<open>blocks\<close> link to itself and whose explicit parent reference names
  the issue itself is listed under its own id by the parent pass.
\<close>

theorem self_parent_counterexample:
  "\<lparr>link_iid = 1, link_type = Some ''blocks''\<rparr> \<in> set (links_of sl_transport 7 sp_issue)
   \<and> map_of (iid_to_id_of [sp_issue]) 1 = Some (issue_id sp_issue)
   \<and> build_issue_tree sl_transport 7 [sp_issue] =
       Inr ([(10, sp_issue)], [(10, [sp_issue])], [])
   \<and> sp_issue \<in> set (children_of [(10, [sp_issue])] (issue_id sp_issue))"
proof -
  have "\<lparr>link_iid = 1, link_type = Some ''blocks''\<rparr> \<in> set (links_of sl_transport 7 sp_issue)"
    by (simp add: links_of_def get_issue_links_def raise_for_status_def sl_transport_def)
  moreover have "map_of (iid_to_id_of [sp_issue]) 1 = Some (issue_id sp_issue)"
    by (simp add: iid_to_id_of_def sp_issue_def)
  moreover have "sp_issue \<in> set (children_of [(10, [sp_issue])] (issue_id sp_issue))"
    by (simp add: children_of_def sp_issue_def)
  ultimately show ?thesis using sp_build by blast
qed

text \<open>
  Claim C8, amended. A \<open>blocks\<close> link whose display id resolves to the linking issue's
  own id is skipped by the link loop, so in the children map returned by
  \<open>build_issue_tree\<close> an entry that lists an issue under its own id can only stem from
  that issue's explicit parent reference; and when no input issue names itself as its
  parent, no issue is its own child, whatever links it carries.
\<close>

theorem self_link_ignored:
  "(link_type l = Some ''blocks'' \<and> map_of iid_to_id (link_iid l) = Some (issue_id i) \<longrightarrow>
      link_loop iid_to_id issues_by_id i (l # rest) cm =
        link_loop iid_to_id issues_by_id i rest cm) \<and>
   (build_issue_tree requests_get project_id issues = Inr (by_id, cm', roots) \<longrightarrow>
      (\<forall>k. \<forall>c \<in> set (children_of cm' k). issue_id c = k \<longrightarrow> parent c = Some k)) \<and>
   (build_issue_tree requests_get project_id issues = Inr (by_id, cm', roots) \<and>
    (\<forall>j \<in> set issues. parent j \<noteq> Some (issue_id j)) \<longrightarrow>
      (\<forall>k. \<forall>c \<in> set (children_of cm' k). issue_id c \<noteq> k))"
proof -
  have own: "parent c = Some k"
    if b: "build_issue_tree requests_get project_id issues = Inr (by_id, cm', roots)"
      and c: "c \<in> set (children_of cm' k)" and s: "issue_id c = k" for k c
    using build_child_cases [OF b c]
  proof
    assume "c \<in> set (parent_children issues k)"
    then show ?thesis by (simp add: parent_children_elem)
  next
    assume "\<exists>i \<in> set issues. issue_id i = k \<and>
       c \<in> set (link_children requests_get project_id (iid_to_id_of issues) (issues_by_id_of issues) i)"
    then obtain i where "issue_id i = k"
      "c \<in> set (link_children requests_get project_id (iid_to_id_of issues) (issues_by_id_of issues) i)"
      by blast
    with link_children_elem [of c requests_get project_id issues i] s show ?thesis
      by simp
  qed
  show ?thesis
  proof (intro conjI impI allI ballI)
    assume "link_type l = Some ''blocks'' \<and> map_of iid_to_id (link_iid l) = Some (issue_id i)"
    then show "link_loop iid_to_id issues_by_id i (l # rest) cm =
        link_loop iid_to_id issues_by_id i rest cm"
      by simp
  next
    fix k c
    assume "build_issue_tree requests_get project_id issues = Inr (by_id, cm', roots)"
      and "c \<in> set (children_of cm' k)" and "issue_id c = k"
    then show "parent c = Some k" by (rule own)
  next
    fix k c
    assume h: "build_issue_tree requests_get project_id issues = Inr (by_id, cm', roots) \<and>
      (\<forall>j \<in> set issues. parent j \<noteq> Some (issue_id j))"
      and c: "c \<in> set (children_of cm' k)"
    from h have b: "build_issue_tree requests_get project_id issues = Inr (by_id, cm', roots)"
      and n: "\<forall>j \<in> set issues. parent j \<noteq> Some (issue_id j)"
      by blast+
    from build_child_known [OF b c] n have p: "parent c \<noteq> Some (issue_id c)" by blast
    show "issue_id c \<noteq> k"
    proof
      assume "issue_id c = k"
      with own [OF b c] p show False by simp
    qed
  qed
qed

theorem self_link_ignored_witness:
  "link_type \<lparr>link_iid = 1, link_type = Some ''blocks''\<rparr> = Some ''blocks'' \<and>
   map_of [(1, 10), (2, 20)] (link_iid \<lparr>link_iid = 1, link_type = Some ''blocks''\<rparr>)
     = Some (issue_id ex_root) \<and>
   link_loop [(1, 10), (2, 20)] [(10, ex_root), (20, ex_task)] ex_root
     [\<lparr>link_iid = 1, link_type = Some ''blocks''\<rparr>] [] = Inr [] \<and>
   build_issue_tree sl_transport 7 [ex_root, ex_task] =
     Inr ([(10, ex_root), (20, ex_task)], [(10, [ex_task, ex_task])], [ex_root]) \<and>
   parent ex_root \<noteq> Some (issue_id ex_root) \<and>
   parent ex_task \<noteq> Some (issue_id ex_task) \<and>
   ex_root \<notin> set (children_of [(10, [ex_task, ex_task])] (issue_id ex_root)) \<and>
   ex_task \<notin> set (children_of [(10, [ex_task, ex_task])] (issue_id ex_task))"
proof -
  have a: "link_type \<lparr>link_iid = 1, link_type = Some ''blocks''\<rparr> = Some ''blocks'' \<and>
     map_of [(1, 10), (2, 20)] (link_iid \<lparr>link_iid = 1, link_type = Some ''blocks''\<rparr>)
       = Some (issue_id ex_root)"
    by (simp add: ex_root_def)
  from self_link_ignored [where l = "\<lparr>link_iid = 1, link_type = Some ''blocks''\<rparr>"
      and iid_to_id = "[(1, 10), (2, 20)]" and i = ex_root
      and issues_by_id = "[(10, ex_root), (20, ex_task)]" and rest = "[]" and cm = "[]"] a
  have 1: "link_loop [(1, 10), (2, 20)] [(10, ex_root), (20, ex_task)] ex_root
     [\<lparr>link_iid = 1, link_type = Some ''blocks''\<rparr>] [] = Inr []"
    by simp
  have p: "\<forall>j \<in> set [ex_root, ex_task]. parent j \<noteq> Some (issue_id j)"
    by (simp add: ex_issue_defs)
  from self_link_ignored [where requests_get = sl_transport and project_id = 7
      and issues = "[ex_root, ex_task]"] sl_build p
  have 2: "\<forall>k. \<forall>c \<in> set (children_of [(10, [ex_task, ex_task])] k). issue_id c \<noteq> k"
    by blast
  then have 3: "ex_root \<notin> set (children_of [(10, [ex_task, ex_task])] (issue_id ex_root))"
    and 4: "ex_task \<notin> set (children_of [(10, [ex_task, ex_task])] (issue_id ex_task))"
    by blast+
  from p have q: "parent ex_root \<noteq> Some (issue_id ex_root)"
    "parent ex_task \<noteq> Some (issue_id ex_task)"
    by simp_all
  from a 1 sl_build q 3 4 show ?thesis by blast
qed

lemmas fw_defs = fw_p1_def fw_p2_def fw_x_def fw_transport_def
lemmas cy_defs = cy_r_def cy_a_def cy_b_def cy_transport_def

lemma fw_build:
  "build_issue_tree fw_transport 7 [fw_p1, fw_p2, fw_x] =
     Inr ([(1, fw_p1), (2, fw_p2), (3, fw_x)], [(1, [fw_x]), (2, [fw_x])], [fw_p1, fw_p2])"
  by (simp add: build_defs fw_defs)

text \<open>
  Claim C1, as stated, fails: the link pass has no check whether the target is already
  attached. The task \<open>fw_x\<close> has the explicit parent 1 and is the target of a
  \<open>blocks\<close> link of issue 2; it ends up under both.
\<close>

theorem first_writer_wins_counterexample:
  "build_issue_tree fw_transport 7 [fw_p1, fw_p2, fw_x] =
     Inr ([(1, fw_p1), (2, fw_p2), (3, fw_x)], [(1, [fw_x]), (2, [fw_x])], [fw_p1, fw_p2])
   \<and> parent fw_x = Some 1
   \<and> \<not> at_most_one_parent [(1, [fw_x]), (2, [fw_x])]"
proof -
  have "fw_x \<in> set (children_of [(1, [fw_x]), (2, [fw_x])] 1)"
       "fw_x \<in> set (children_of [(1, [fw_x]), (2, [fw_x])] 2)"
    by (simp_all add: children_of_def)
  then have "at_most_one_parent [(1, [fw_x]), (2, [fw_x])] \<Longrightarrow> (1::int) = 2"
    unfolding at_most_one_parent_def by blast
  then have "\<not> at_most_one_parent [(1, [fw_x]), (2, [fw_x])]"
    by auto
  moreover have "parent fw_x = Some 1" by (simp add: fw_x_def)
  ultimately show ?thesis using fw_build by blast
qed

text \<open>
  Claim C1, amended. Whenever \<open>build_issue_tree\<close> returns, the children listed under
  an id \<open>k\<close> are the input issues whose parent reference resolves to \<open>k\<close>, in input
  order, followed by the resolved targets of the \<open>blocks\<close> links of every input issue
  of type \<open>issue\<close> with id \<open>k\<close>, in fetch order; a link target is appended whether
  or not it is attached elsewhere already.
\<close>

theorem children_map_contents:
  assumes "build_issue_tree requests_get project_id issues = Inr (issues_by_id, cm, roots)"
  shows "children_of cm k =
           parent_children issues k @
           concat (map (link_children requests_get project_id (iid_to_id_of issues)
                          (issues_by_id_of issues))
                     (filter (\<lambda>i. issue_id i = k) issues))
       \<and> (c \<in> set (children_of cm k)) =
           (c \<in> set (parent_children issues k) \<or>
            (\<exists>i \<in> set issues. issue_id i = k \<and>
               c \<in> set (link_children requests_get project_id (iid_to_id_of issues)
                          (issues_by_id_of issues) i)))"
proof -
  have e: "children_of cm k =
           parent_children issues k @
           concat (map (link_children requests_get project_id (iid_to_id_of issues)
                          (issues_by_id_of issues))
                     (filter (\<lambda>i. issue_id i = k) issues))"
    by (rule build_children [OF assms])
  show ?thesis
    by (rule conjI, rule e, unfold e) auto
qed

theorem children_map_contents_witness:
  "build_issue_tree fw_transport 7 [fw_p1, fw_p2, fw_x] =
     Inr ([(1, fw_p1), (2, fw_p2), (3, fw_x)], [(1, [fw_x]), (2, [fw_x])], [fw_p1, fw_p2])
   \<and> children_of [(1, [fw_x]), (2, [fw_x])] 2 =
       parent_children [fw_p1, fw_p2, fw_x] 2 @
       concat (map (link_children fw_transport 7 (iid_to_id_of [fw_p1, fw_p2, fw_x])
                      (issues_by_id_of [fw_p1, fw_p2, fw_x]))
                 (filter (\<lambda>i. issue_id i = 2) [fw_p1, fw_p2, fw_x]))
   \<and> fw_x \<in> set (link_children fw_transport 7 (iid_to_id_of [fw_p1, fw_p2, fw_x])
                      (issues_by_id_of [fw_p1, fw_p2, fw_x]) fw_p2)
   \<and> fw_x \<in> set (parent_children [fw_p1, fw_p2, fw_x] 1)"
proof -
  have a: "fw_x \<in> set (link_children fw_transport 7 (iid_to_id_of [fw_p1, fw_p2, fw_x])
                      (issues_by_id_of [fw_p1, fw_p2, fw_x]) fw_p2)"
    by (simp add: link_children_def links_of_def blocks_target_def build_defs fw_defs)
  have b: "fw_x \<in> set (parent_children [fw_p1, fw_p2, fw_x] 1)"
    by (simp add: parent_children_def fw_defs)
  from children_map_contents [OF fw_build, of 2] a b fw_build show ?thesis
    by blast
qed

lemma cy_build:
  "build_issue_tree cy_transport 7 [cy_r, cy_a, cy_b] =
     Inr ([(1, cy_r), (2, cy_a), (3, cy_b)], [(1, [cy_a]), (2, [cy_b]), (3, [cy_a])], [cy_r])"
  by (simp add: build_defs cy_defs)

text \<open>
  Claim C2, as stated, fails: mutual \<open>blocks\<close> links are both registered. The root
  \<open>cy_r\<close> reaches \<open>cy_a\<close>, and \<open>cy_a\<close> is its own descendant through \<open>cy_b\<close>.
\<close>

theorem acyclicity_counterexample:
  "build_issue_tree cy_transport 7 [cy_r, cy_a, cy_b] =
     Inr ([(1, cy_r), (2, cy_a), (3, cy_b)], [(1, [cy_a]), (2, [cy_b]), (3, [cy_a])], [cy_r])
   \<and> issue_id cy_a \<in> reachable_ids [(1, [cy_a]), (2, [cy_b]), (3, [cy_a])] [cy_r]
   \<and> (issue_id cy_a, issue_id cy_a) \<in> (child_edges [(1, [cy_a]), (2, [cy_b]), (3, [cy_a])])\<^sup>+
   \<and> \<not> acyclic (child_edges [(1, [cy_a]), (2, [cy_b]), (3, [cy_a])])"
proof -
  let ?cm = "[(1, [cy_a]), (2, [cy_b]), (3, [cy_a])]"
  have "cy_a \<in> set (children_of ?cm 1)" "cy_b \<in> set (children_of ?cm 2)"
    "cy_a \<in> set (children_of ?cm 3)"
    by (simp_all add: children_of_def)
  then have "(1, issue_id cy_a) \<in> child_edges ?cm" "(2, issue_id cy_b) \<in> child_edges ?cm"
    "(3, issue_id cy_a) \<in> child_edges ?cm"
    by (simp_all only: child_edgesI)
  then have e: "(issue_id cy_r, issue_id cy_a) \<in> child_edges ?cm"
    "(issue_id cy_a, issue_id cy_b) \<in> child_edges ?cm"
    "(issue_id cy_b, issue_id cy_a) \<in> child_edges ?cm"
    by (simp_all add: cy_defs)
  from e(2,3) have c: "(issue_id cy_a, issue_id cy_a) \<in> (child_edges ?cm)\<^sup>+"
    by (rule trancl_into_trancl [OF r_into_trancl])
  then have n: "\<not> acyclic (child_edges ?cm)"
    by (auto simp: acyclic_def)
  from e(1) have "issue_id cy_a \<in> reachable_ids ?cm [cy_r]"
    unfolding reachable_ids_def by auto
  with c n cy_build show ?thesis by blast
qed

text \<open>
  Claim C2, amended. The builder adds no cycle of its own: when the resolvable parent
  references and the \<open>blocks\<close> links between different input issues form no cycle,
  the edges of the returned children map form none either.
\<close>

theorem acyclic_when_input_acyclic:
  assumes "build_issue_tree requests_get project_id issues = Inr (issues_by_id, cm, roots)"
    and "acyclic (set (input_edges requests_get project_id issues))"
  shows "acyclic (child_edges cm)"
  using assms(2) child_edges_input [OF assms(1)] by (rule acyclic_subset)

lemma sl_input_edges:
  "input_edges sl_transport 7 [ex_root, ex_task] = [(10, 20), (10, 20)]"
  by (simp add: input_edges_def links_of_def build_defs sl_transport_def ex_issue_defs)

theorem acyclic_when_input_acyclic_witness:
  "build_issue_tree sl_transport 7 [ex_root, ex_task] =
     Inr ([(10, ex_root), (20, ex_task)], [(10, [ex_task, ex_task])], [ex_root])
   \<and> acyclic (set (input_edges sl_transport 7 [ex_root, ex_task]))
   \<and> acyclic (child_edges [(10, [ex_task, ex_task])])"
proof -
  have "acyclic ({} :: (int \<times> int) set)"
    by (simp add: acyclic_def)
  then have a: "acyclic (set (input_edges sl_transport 7 [ex_root, ex_task]))"
    by (simp add: sl_input_edges)
  from acyclic_when_input_acyclic [OF sl_build a] sl_build a show ?thesis by blast
qed

lemma cy2_build:
  "build_issue_tree cy_transport 7 [cy_a, cy_b] =
     Inr ([(2, cy_a), (3, cy_b)], [(2, [cy_b]), (3, [cy_a])], [])"
  by (simp add: build_defs cy_defs)

text \<open>
  Claim C3, as stated, fails: two issues that block each other are both children, so
  there is no root and nothing is reachable, although every reference resolves.
\<close>

theorem completeness_counterexample:
  "all_resolvable cy_transport 7 [cy_a, cy_b]
   \<and> build_issue_tree cy_transport 7 [cy_a, cy_b] =
       Inr ([(2, cy_a), (3, cy_b)], [(2, [cy_b]), (3, [cy_a])], [])
   \<and> reachable_ids [(2, [cy_b]), (3, [cy_a])] [] = {}
   \<and> reachable_ids [(2, [cy_b]), (3, [cy_a])] [] \<noteq> set (map issue_id [cy_a, cy_b])"
proof -
  have a: "all_resolvable cy_transport 7 [cy_a, cy_b]"
    by (simp add: all_resolvable_def links_of_def build_defs cy_defs)
  have r: "reachable_ids [(2, [cy_b]), (3, [cy_a])] [] = {}"
    by (simp add: reachable_ids_def)
  from a r cy2_build show ?thesis by simp
qed

text \<open>
  Claim C3, amended. Whenever \<open>build_issue_tree\<close> returns, every input issue is a root
  or a value of some children-map entry, never both, and nothing else occurs there; and
  when the input relations form no cycle, the ids reachable from the roots are exactly the
  ids of the input.
\<close>

theorem roots_and_children_cover_input:
  assumes "build_issue_tree requests_get project_id issues = Inr (issues_by_id, cm, roots)"
  shows "set roots \<union> {c. appears_as_child cm c} = set issues
       \<and> set roots \<inter> {c. appears_as_child cm c} = {}
       \<and> (acyclic (set (input_edges requests_get project_id issues)) \<longrightarrow>
            reachable_ids cm roots = set (map issue_id issues))"
proof (intro conjI impI)
  show "set roots \<union> {c. appears_as_child cm c} = set issues"
  proof
    show "set roots \<union> {c. appears_as_child cm c} \<subseteq> set issues"
      using build_child_known [OF assms] build_appears_iff [OF assms]
      unfolding build_roots [OF assms] by auto
    show "set issues \<subseteq> set roots \<union> {c. appears_as_child cm c}"
      using non_root_listed [OF assms] build_appears_iff [OF assms] by blast
  qed
  show "set roots \<inter> {c. appears_as_child cm c} = {}"
    unfolding build_roots [OF assms] by auto
next
  assume "acyclic (set (input_edges requests_get project_id issues))"
  from all_ids_reachable [OF assms this] reachable_ids_known [OF assms]
  show "reachable_ids cm roots = set (map issue_id issues)"
    by auto
qed

theorem roots_and_children_cover_input_witness:
  "build_issue_tree sl_transport 7 [ex_root, ex_task] =
     Inr ([(10, ex_root), (20, ex_task)], [(10, [ex_task, ex_task])], [ex_root])
   \<and> set [ex_root] \<union> {c. appears_as_child [(10, [ex_task, ex_task])] c} = set [ex_root, ex_task]
   \<and> set [ex_root] \<inter> {c. appears_as_child [(10, [ex_task, ex_task])] c} = {}
   \<and> acyclic (set (input_edges sl_transport 7 [ex_root, ex_task]))
   \<and> reachable_ids [(10, [ex_task, ex_task])] [ex_root] = set (map issue_id [ex_root, ex_task])"
proof -
  have "acyclic ({} :: (int \<times> int) set)"
    by (simp add: acyclic_def)
  then have a: "acyclic (set (input_edges sl_transport 7 [ex_root, ex_task]))"
    by (simp add: sl_input_edges)
  from roots_and_children_cover_input [OF sl_build] a sl_build show ?thesis by blast
qed

section \<open>Properties of the checklist parser\<close>

lemma split_acc_no_break:
  "\<forall>c \<in> set cur. \<not> is_linebreak c \<Longrightarrow> l \<in> set (split_acc cur s) \<Longrightarrow>
   \<forall>c \<in> set l. \<not> is_linebreak c"
proof (induction cur s rule: split_acc.induct)
  case (1 cur)
  then show ?case by (cases "cur = []") simp_all
next
  case (2 cur c cs)
  have nil: "\<forall>c \<in> set ([]::string). \<not> is_linebreak c" by simp
  show ?case
  proof (cases "c = CHR 0x0D")
    case cr: True
    show ?thesis
    proof (cases cs)
      case Nil
      with cr "2.prems" show ?thesis by simp
    next
      case (Cons d ds)
      show ?thesis
      proof (cases "d = CHR 0x0A")
        case True
        with cr Cons "2.prems"(2) have "l = cur \<or> l \<in> set (split_acc [] ds)" by simp
        with "2.IH"(1) [OF cr Cons True nil] "2.prems"(1) show ?thesis by blast
      next
        case False
        with cr Cons "2.prems"(2) have "l = cur \<or> l \<in> set (split_acc [] cs)" by simp
        with "2.IH"(2) [OF cr Cons False nil] "2.prems"(1) show ?thesis by blast
      qed
    qed
  next
    case ncr: False
    show ?thesis
    proof (cases "is_linebreak c")
      case True
      with ncr "2.prems"(2) have "l = cur \<or> l \<in> set (split_acc [] cs)" by simp
      with "2.IH"(3) [OF ncr True nil] "2.prems"(1) show ?thesis by blast
    next
      case False
      with ncr "2.prems"(2) have "l \<in> set (split_acc (cur @ [c]) cs)" by simp
      moreover from False "2.prems"(1) have "\<forall>x \<in> set (cur @ [c]). \<not> is_linebreak x" by simp
      ultimately show ?thesis using "2.IH"(4) [OF ncr False] by blast
    qed
  qed
qed

lemma splitlines_no_newline:
  "l \<in> set (splitlines s) \<Longrightarrow> CHR 0x0A \<notin> set l"
proof -
  assume "l \<in> set (splitlines s)"
  then have "\<forall>c \<in> set l. \<not> is_linebreak c"
    unfolding splitlines_def by (rule split_acc_no_break [rotated]) simp
  moreover have "is_linebreak (CHR 0x0A)" by (simp add: is_linebreak_def)
  ultimately show ?thesis by blast
qed



lemma set_strip: "set (strip l) \<subseteq> set l"
proof -
  have "set (strip l) \<subseteq> set (dropWhile isspace l)"
    unfolding strip_def using set_dropWhileD [of _ isspace "rev (dropWhile isspace l)"]
    by auto
  also have "\<dots> \<subseteq> set l"
    using set_dropWhileD [of _ isspace l] by auto
  finally show ?thesis .
qed




lemma six_chars:
  assumes "6 \<le> length s"
  obtains a b c d e f r where "s = a # b # c # d # e # f # r"
proof -
  from assms have "Suc (Suc (Suc (Suc (Suc (Suc 0))))) \<le> length s" by simp
  then obtain a b c d e f r where "s = a # b # c # d # e # f # r"
    unfolding Suc_le_length_iff by blast
  then show ?thesis by (rule that)
qed

lemma re_match_line:
  assumes "CHR 0x0A \<notin> set s"
  shows "re_match s =
     (if take 6 s = ''- [x] '' \<and> drop 6 s \<noteq> [] then Some (CHR ''x'', drop 6 s)
      else if take 6 s = ''- [ ] '' \<and> drop 6 s \<noteq> [] then Some (CHR '' '', drop 6 s)
      else None)"
proof (cases "6 \<le> length s")
  case False
  then have "take 6 s \<noteq> ''- [x] ''" "take 6 s \<noteq> ''- [ ] ''"
    by (auto dest: arg_cong [where f = length])
  with False show ?thesis by (simp add: re_match_def)
next
  case True
  then obtain a b c d e f r where s: "s = a # b # c # d # e # f # r"
    by (rule six_chars)
  from assms s have "CHR 0x0A \<notin> set r" by simp
  then have t: "takeWhile (\<lambda>c. c \<noteq> CHR 0x0A) r = r" "dropWhile (\<lambda>c. c \<noteq> CHR 0x0A) r = []"
    by (auto intro: takeWhile_eq_all_conv [THEN iffD2] simp: dropWhile_eq_Nil_conv)
  have g: "(d = CHR '' '' \<or> d = CHR ''x'') \<or> (d \<noteq> CHR '' '' \<and> d \<noteq> CHR ''x'')" by blast
  show ?thesis unfolding s re_match_def
    by (simp add: t Let_def) blast
qed

lemma groups_to_pair:
  "(case (if A then Some (CHR ''x'', t) else if B then Some (CHR '' '', t) else None) of
      None \<Rightarrow> None
    | Some (group1, group2) \<Rightarrow> Some (group1 = CHR ''x'', group2)) =
   (if A then Some (True, t) else if B then Some (False, t) else None)"
  by simp

lemma parse_line_spec:
  assumes "CHR 0x0A \<notin> set l"
  shows "parse_line l = checkbox_line l"
proof -
  from assms set_strip [of l] have n: "CHR 0x0A \<notin> set (strip l)" by blast
  show ?thesis
    unfolding parse_line_def checkbox_line_def Let_def re_match_line [OF n]
    by (rule groups_to_pair)
qed

lemma map_filter_agree:
  "(\<And>x. x \<in> set xs \<Longrightarrow> f x = g x) \<Longrightarrow> List.map_filter f xs = List.map_filter g xs"
proof (induction xs)
  case Nil
  show ?case by (simp add: List.map_filter_simps)
next
  case (Cons a xs)
  then have "f a = g a" "List.map_filter f xs = List.map_filter g xs" by simp_all
  then show ?case by (cases "g a") (simp_all add: List.map_filter_simps)
qed

text \<open>
  Claim C6. The parser yields nothing for an absent or empty description; otherwise it
  yields, in order, one pair per line that, leading and trailing whitespace ignored, reads
  \<open>- [x] text\<close> (checked) or \<open>- [ ] text\<close> (unchecked) with a non-empty text, and
  skips every other line. For the three lines \<open>- [x] done\<close>, \<open>- [ ] todo\<close>, \<open>notes\<close>
  it yields exactly \<open>(True, done)\<close> and \<open>(False, todo)\<close>; an upper-case \<open>X\<close> does not
  match.
\<close>

theorem checklist_parser:
  "parse_tasks_from_description None = []
   \<and> parse_tasks_from_description (Some []) = []
   \<and> parse_tasks_from_description (Some d) = List.map_filter checkbox_line (splitlines d)
   \<and> parse_tasks_from_description
        (Some (''- [x] done'' @ [CHR 0x0A] @ ''- [ ] todo'' @ [CHR 0x0A] @ ''notes''))
       = [(True, ''done''), (False, ''todo'')]
   \<and> parse_tasks_from_description (Some (''  - [x]  a b  '' @ [CHR 0x0A] @ ''- [X] c''))
       = [(True, '' a b'')]"
proof (intro conjI)
  show "parse_tasks_from_description None = []"
    by (simp add: parse_tasks_from_description_def)
  show "parse_tasks_from_description (Some []) = []"
    by (simp add: parse_tasks_from_description_def)
  have m: "List.map_filter parse_line (splitlines d) = List.map_filter checkbox_line (splitlines d)"
    by (rule map_filter_agree, rule parse_line_spec, rule splitlines_no_newline)
  have e: "List.map_filter checkbox_line (splitlines []) = []"
    by (simp add: splitlines_def List.map_filter_simps)
  show "parse_tasks_from_description (Some d) = List.map_filter checkbox_line (splitlines d)"
  proof (cases "d = []")
    case True
    with e show ?thesis by (simp add: parse_tasks_from_description_def)
  next
    case False
    with m show ?thesis by (simp add: parse_tasks_from_description_def)
  qed
  show "parse_tasks_from_description
        (Some (''- [x] done'' @ [CHR 0x0A] @ ''- [ ] todo'' @ [CHR 0x0A] @ ''notes''))
       = [(True, ''done''), (False, ''todo'')]"
    by code_simp
  show "parse_tasks_from_description (Some (''  - [x]  a b  '' @ [CHR 0x0A] @ ''- [X] c''))
       = [(True, '' a b'')]"
    by code_simp
qed

section \<open>Properties of the hierarchy walker\<close>

lemma emit_all_Nil: "emit_all [] r s = s"
  by (simp add: emit_all_def)

lemma emit_is_emit_all: "emit l r s = emit_all [l] r s"
  by (simp add: emit_def emit_all_def)

lemma emit_all_append: "emit_all b r (emit_all a r s) = emit_all (a @ b) r s"
  by (simp add: emit_all_def)

lemma emit_all_emit: "emit_all ls r (emit l r s) = emit_all (l # ls) r s"
  by (simp add: emit_is_emit_all emit_all_append)

lemma print_effect:
  "\<forall>a s'. print_workitem_hierarchy wi indent lines s = (Inr a, s') \<longrightarrow>
      a = fst (lines_or_new lines s) \<and>
      s' = emit_all (render wi indent) a (snd (lines_or_new lines s))"
  "\<forall>u s'. widgets_loop ws indent r s = (Inr u, s') \<longrightarrow>
      s' = emit_all (render_widgets ws indent) r s"
  "\<forall>u s'. children_loop cs indent r s = (Inr u, s') \<longrightarrow>
      s' = emit_all (render_children cs indent) r s"
proof (induction wi indent lines s and ws indent r s and cs indent r s
    rule: print_workitem_hierarchy_widgets_loop_children_loop.induct)
  case (1 wi indent lines s)
  show ?case
  proof (intro allI impI)
    fix a s'
    assume p: "print_workitem_hierarchy wi indent lines s = (Inr a, s')"
    obtain r s1 where l: "lines_or_new lines s = (r, s1)" by (cases "lines_or_new lines s")
    from p l obtain line where ln: "line_of wi indent = Inr line"
      by (cases "line_of wi indent") (simp_all add: print_workitem_hierarchy.simps)
    show "a = fst (lines_or_new lines s) \<and>
      s' = emit_all (render wi indent) a (snd (lines_or_new lines s))"
    proof (cases "wi_widgets wi")
      case Missing
      with p l ln show ?thesis
        by (auto simp add: print_workitem_hierarchy.simps render.simps emit_is_emit_all)
    next
      case Null
      with p l ln show ?thesis by (simp add: print_workitem_hierarchy.simps)
    next
      case (Val widgets)
      obtain x s2 where w: "widgets_loop widgets indent r (emit line r s1) = (x, s2)"
        by (cases "widgets_loop widgets indent r (emit line r s1)")
      with p l ln Val obtain u where x: "x = Inr u" and a: "a = r" and s: "s' = s2"
        by (cases x) (simp_all add: print_workitem_hierarchy.simps)
      from "1.IH" [OF l [symmetric] ln Val] w x
      have "s2 = emit_all (render_widgets widgets indent) r (emit line r s1)" by simp
      with a s l ln Val show ?thesis
        by (simp add: render.simps emit_all_emit)
    qed
  qed
next
  case (2 indent r s)
  show ?case by (simp add: emit_all_Nil)
next
  case (3 w rest indent r s)
  show ?case
  proof (intro allI impI)
    fix u s'
    assume p: "widgets_loop (w # rest) indent r s = (Inr u, s')"
    show "s' = emit_all (render_widgets (w # rest) indent) r s"
    proof (cases "w_type w = Val ''HIERARCHY''")
      case False
      with p "3.IH"(3) show ?thesis by (simp add: emit_all_Nil)
    next
      case True
      with p obtain children where c: "children_nodes (w_children w) = Inr children"
        by (cases "children_nodes (w_children w)") simp_all
      obtain x s1 where cl: "children_loop children indent r s = (x, s1)"
        by (cases "children_loop children indent r s")
      with p True c obtain v where x: "x = Inr v"
        and r: "widgets_loop rest indent r s1 = (Inr u, s')"
        by (cases x) simp_all
      from "3.IH"(1) [OF True c] cl x
      have 1: "s1 = emit_all (render_children children indent) r s" by simp
      from "3.IH"(2) [OF True c cl [symmetric] x] r
      have 2: "s' = emit_all (render_widgets rest indent) r s1" by simp
      from 1 2 True c show ?thesis by (simp add: emit_all_append)
    qed
  qed
next
  case (4 indent r s)
  show ?case by (simp add: emit_all_Nil)
next
  case (5 child rest indent r s)
  show ?case
  proof (intro allI impI)
    fix u s'
    assume p: "children_loop (child # rest) indent r s = (Inr u, s')"
    obtain x s1 where c: "print_workitem_hierarchy child (indent + 1) (Some r) s = (x, s1)"
      by (cases "print_workitem_hierarchy child (indent + 1) (Some r) s")
    with p obtain a where x: "x = Inr a" and r: "children_loop rest indent r s1 = (Inr u, s')"
      by (cases x) simp_all
    from "5.IH"(1) c x have 1: "s1 = emit_all (render child (indent + 1)) r s"
      by (simp add: lines_or_new_def)
    from "5.IH"(2) [OF c [symmetric] x] r
    have 2: "s' = emit_all (render_children rest indent) r s1" by simp
    from 1 2 show "s' = emit_all (render_children (child # rest) indent) r s"
      by (simp add: emit_all_append)
  qed
qed

lemmas walker_defs = print_workitem_hierarchy.simps render.simps line_of_def get_wtype_def
  get_created_at_def get_str_def prefix_of_def format_line_def children_nodes_def
  lines_or_new_def

lemmas wi_defs = wi_leaf_def wi_mid_def wi_top_def wi_bare_def

lemma render_top: "render wi_top 0 = wi_top_lines"
  by (simp add: walker_defs wi_defs wi_top_lines_def)

lemma print_top:
  "print_workitem_hierarchy wi_top 0 (Some 0) s_main = (Inr 0, emit_all wi_top_lines 0 s_main)"
  by (simp add: walker_defs wi_defs wi_top_lines_def emit_is_emit_all emit_all_append)

lemma print_top_new:
  "print_workitem_hierarchy wi_top 0 None s_main =
     (Inr 1, emit_all wi_top_lines 1 (s_main\<lparr>lists := (lists s_main)(1 := []), fresh := 2\<rparr>))"
  by (simp add: walker_defs wi_defs wi_top_lines_def emit_is_emit_all emit_all_append
      s_main_def numeral_2_eq_2)

text \<open>
  Claim C9. When \<open>print_workitem_hierarchy\<close> returns and a list was passed as
  \<open>lines\<close>, the result is that same list object, its former elements followed by
  the rendered lines in depth-first order; when no list was passed, the result is a new
  list object holding exactly the rendered lines. Every other list object is unchanged,
  and the console received the same lines.
\<close>

theorem lines_accumulator_frame:
  assumes "print_workitem_hierarchy wi indent lines s = (Inr a, s')"
  shows "(case lines of
            Some r \<Rightarrow> a = r \<and> lists s' r = lists s r @ render wi indent \<and> fresh s' = fresh s
          | None \<Rightarrow> a = fresh s \<and> lists s' a = render wi indent \<and> fresh s' = Suc (fresh s))
       \<and> (\<forall>b. b \<noteq> a \<longrightarrow> lists s' b = lists s b)
       \<and> stdout s' = stdout s @ render wi indent"
proof -
  from print_effect(1) [of wi indent lines s] assms
  have a: "a = fst (lines_or_new lines s)"
    and s: "s' = emit_all (render wi indent) a (snd (lines_or_new lines s))"
    by simp_all
  show ?thesis
  proof (cases lines)
    case None
    with a s show ?thesis by (simp add: lines_or_new_def emit_all_def)
  next
    case (Some r)
    with a s show ?thesis by (simp add: lines_or_new_def emit_all_def)
  qed
qed

theorem lines_accumulator_frame_witness:
  "print_workitem_hierarchy wi_top 0 (Some 0) s_main = (Inr 0, emit_all wi_top_lines 0 s_main)
   \<and> lists (emit_all wi_top_lines 0 s_main) 0 = [''header''] @ wi_top_lines
   \<and> lists (emit_all wi_top_lines 0 s_main) 5 = lists s_main 5
   \<and> print_workitem_hierarchy wi_top 0 None s_main =
       (Inr 1, emit_all wi_top_lines 1 (s_main\<lparr>lists := (lists s_main)(1 := []), fresh := 2\<rparr>))
   \<and> lists (emit_all wi_top_lines 1 (s_main\<lparr>lists := (lists s_main)(1 := []), fresh := 2\<rparr>)) 1
       = wi_top_lines
   \<and> lists (emit_all wi_top_lines 1 (s_main\<lparr>lists := (lists s_main)(1 := []), fresh := 2\<rparr>)) 0
       = [''header'']"
proof -
  from lines_accumulator_frame [OF print_top]
  have 1: "lists (emit_all wi_top_lines 0 s_main) 0 = [''header''] @ wi_top_lines"
    and 2: "lists (emit_all wi_top_lines 0 s_main) 5 = lists s_main 5"
    by (simp_all add: render_top s_main_def)
  from lines_accumulator_frame [OF print_top_new]
  have 3: "lists (emit_all wi_top_lines 1 (s_main\<lparr>lists := (lists s_main)(1 := []), fresh := 2\<rparr>)) 1
       = wi_top_lines"
    and 4: "lists (emit_all wi_top_lines 1 (s_main\<lparr>lists := (lists s_main)(1 := []), fresh := 2\<rparr>)) 0
       = [''header'']"
    by (simp_all add: render_top s_main_def)
  from print_top print_top_new 1 2 3 4 show ?thesis by blast
qed



lemma fields_with_hasChildren:
  "wi_title (with_hasChildren h wi) = wi_title wi"
  "wi_iid (with_hasChildren h wi) = wi_iid wi"
  "wi_state (with_hasChildren h wi) = wi_state wi"
  "wi_createdAt (with_hasChildren h wi) = wi_createdAt wi"
  "wi_workItemType (with_hasChildren h wi) = wi_workItemType wi"
  by (simp_all add: with_hasChildren.simps)

lemma line_of_with_hasChildren: "line_of (with_hasChildren h wi) indent = line_of wi indent"
  unfolding line_of_def fields_with_hasChildren by (rule refl)

lemma widgets_with_hasChildren:
  "wi_widgets (with_hasChildren h wi) =
     (case wi_widgets wi of
        Val widgets \<Rightarrow> Val (with_hasChildren_widgets h widgets)
      | Missing \<Rightarrow> Missing
      | Null \<Rightarrow> Null)"
  by (simp add: with_hasChildren.simps)

lemma children_nodes_with_hasChildren:
  "children_nodes
     (case children_nodes f of
        Inl e \<Rightarrow> f
      | Inr children \<Rightarrow>
          (if f = Val (Val children) then Val (Val (with_hasChildren_children h children)) else f)) =
   (case children_nodes f of
      Inl e \<Rightarrow> Inl e
    | Inr children \<Rightarrow> Inr (with_hasChildren_children h children))"
proof (cases f)
  case Missing
  then show ?thesis by (simp add: children_nodes_def)
next
  case Null
  then show ?thesis by (simp add: children_nodes_def)
next
  case (Val conn)
  then show ?thesis by (cases conn) (simp_all add: children_nodes_def)
qed

lemma widgets_loop_with_hasChildren_Cons:
  "widgets_loop (with_hasChildren_widgets h (w # rest)) indent r s =
     (if w_type w = Val ''HIERARCHY'' then
        (case children_nodes (w_children w) of
           Inl e \<Rightarrow> (Inl e, s)
         | Inr children \<Rightarrow>
             (case children_loop (with_hasChildren_children h children) indent r s of
                (Inl e, s1) \<Rightarrow> (Inl e, s1)
              | (Inr u, s1) \<Rightarrow> widgets_loop (with_hasChildren_widgets h rest) indent r s1))
      else widgets_loop (with_hasChildren_widgets h rest) indent r s)"
proof -
  let ?f = "case children_nodes (w_children w) of
        Inl e \<Rightarrow> w_children w
      | Inr children \<Rightarrow>
          (if w_children w = Val (Val children)
           then Val (Val (with_hasChildren_children h children)) else w_children w)"
  have c: "children_nodes ?f =
     (case children_nodes (w_children w) of
        Inl e \<Rightarrow> Inl e
      | Inr children \<Rightarrow> Inr (with_hasChildren_children h children))"
    by (rule children_nodes_with_hasChildren)
  have "widgets_loop (with_hasChildren_widgets h (w # rest)) indent r s =
     (if w_type w = Val ''HIERARCHY'' then
        (case children_nodes ?f of
           Inl e \<Rightarrow> (Inl e, s)
         | Inr children \<Rightarrow>
             (case children_loop children indent r s of
                (Inl e, s1) \<Rightarrow> (Inl e, s1)
              | (Inr u, s1) \<Rightarrow> widgets_loop (with_hasChildren_widgets h rest) indent r s1))
      else widgets_loop (with_hasChildren_widgets h rest) indent r s)"
    by (simp only: with_hasChildren_widgets.simps widgets_loop.simps widget.sel)
  then show ?thesis unfolding c
    by (cases "children_nodes (w_children w)") simp_all
qed

lemma print_with_hasChildren:
  "print_workitem_hierarchy (with_hasChildren h wi) indent lines s =
     print_workitem_hierarchy wi indent lines s"
  "widgets_loop (with_hasChildren_widgets h ws) indent r s = widgets_loop ws indent r s"
  "children_loop (with_hasChildren_children h cs) indent r s = children_loop cs indent r s"
proof (induction wi indent lines s and ws indent r s and cs indent r s
    rule: print_workitem_hierarchy_widgets_loop_children_loop.induct)
  case (1 wi indent lines s)
  obtain r s1 where l: "lines_or_new lines s = (r, s1)" by (cases "lines_or_new lines s")
  show ?case
  proof (cases "line_of wi indent")
    case (Inl e)
    with l show ?thesis
      by (simp add: print_workitem_hierarchy.simps [of "with_hasChildren h wi"]
          print_workitem_hierarchy.simps [of wi] line_of_with_hasChildren)
  next
    case (Inr line)
    show ?thesis
    proof (cases "wi_widgets wi")
      case Missing
      with l Inr show ?thesis
        by (simp add: print_workitem_hierarchy.simps [of "with_hasChildren h wi"]
            print_workitem_hierarchy.simps [of wi] line_of_with_hasChildren
            widgets_with_hasChildren)
    next
      case Null
      with l Inr show ?thesis
        by (simp add: print_workitem_hierarchy.simps [of "with_hasChildren h wi"]
            print_workitem_hierarchy.simps [of wi] line_of_with_hasChildren
            widgets_with_hasChildren)
    next
      case (Val widgets)
      from "1.IH" [OF l [symmetric] Inr Val] l Inr Val show ?thesis
        by (simp add: print_workitem_hierarchy.simps [of "with_hasChildren h wi"]
            print_workitem_hierarchy.simps [of wi] line_of_with_hasChildren
            widgets_with_hasChildren)
    qed
  qed
next
  case (2 indent r s)
  show ?case by simp
next
  case (3 w rest indent r s)
  show ?case
  proof (cases "w_type w = Val ''HIERARCHY''")
    case False
    with "3.IH"(3) [OF False] show ?thesis
      by (simp only: widgets_loop_with_hasChildren_Cons widgets_loop.simps if_False)
  next
    case True
    show ?thesis
    proof (cases "children_nodes (w_children w)")
      case (Inl e)
      with True show ?thesis
        by (simp only: widgets_loop_with_hasChildren_Cons widgets_loop.simps if_True sum.case simp_thms)
    next
      case c: (Inr children)
      obtain x s1 where cl: "children_loop children indent r s = (x, s1)"
        by (cases "children_loop children indent r s")
      from "3.IH"(1) [OF True c] cl
      have cl': "children_loop (with_hasChildren_children h children) indent r s = (x, s1)"
        by simp
      show ?thesis
      proof (cases x)
        case (Inl e)
        with True c cl cl' show ?thesis
          by (simp only: widgets_loop_with_hasChildren_Cons widgets_loop.simps if_True sum.case simp_thms
              prod.case)
      next
        case (Inr u)
        with True c cl cl' "3.IH"(2) [OF True c cl [symmetric] Inr] show ?thesis
          by (simp only: widgets_loop_with_hasChildren_Cons widgets_loop.simps if_True sum.case simp_thms
              prod.case)
      qed
    qed
  qed
next
  case (4 indent r s)
  show ?case by simp
next
  case (5 child rest indent r s)
  obtain x s1 where p: "print_workitem_hierarchy child (indent + 1) (Some r) s = (x, s1)"
    by (cases "print_workitem_hierarchy child (indent + 1) (Some r) s")
  show ?case
  proof (cases x)
    case (Inl e)
    with p "5.IH"(1) show ?thesis by simp
  next
    case (Inr a)
    with p "5.IH"(1) "5.IH"(2) [OF p [symmetric] Inr] show ?thesis by simp
  qed
qed

lemma requests_emit: "requests (emit l r s) = requests s"
  by (simp add: emit_def)

lemma requests_lines_or_new: "lines_or_new lines s = (r, s1) \<Longrightarrow> requests s1 = requests s"
  by (cases lines) (auto simp: lines_or_new_def)

lemma print_requests:
  "requests (snd (print_workitem_hierarchy wi indent lines s)) = requests s"
  "requests (snd (widgets_loop ws indent r s)) = requests s"
  "requests (snd (children_loop cs indent r s)) = requests s"
proof (induction wi indent lines s and ws indent r s and cs indent r s
    rule: print_workitem_hierarchy_widgets_loop_children_loop.induct)
  case (1 wi indent lines s)
  obtain r s1 where l: "lines_or_new lines s = (r, s1)" by (cases "lines_or_new lines s")
  note q = requests_lines_or_new [OF l]
  show ?case
  proof (cases "line_of wi indent")
    case (Inl e)
    with l q show ?thesis by (simp add: print_workitem_hierarchy.simps)
  next
    case (Inr line)
    show ?thesis
    proof (cases "wi_widgets wi")
      case Missing
      with l q Inr show ?thesis by (simp add: print_workitem_hierarchy.simps requests_emit)
    next
      case Null
      with l q Inr show ?thesis by (simp add: print_workitem_hierarchy.simps requests_emit)
    next
      case (Val widgets)
      obtain x s2 where w: "widgets_loop widgets indent r (emit line r s1) = (x, s2)"
        by (cases "widgets_loop widgets indent r (emit line r s1)")
      with "1.IH" [OF l [symmetric] Inr Val] have "requests s2 = requests s"
        by (simp add: requests_emit q)
      with l Inr Val w show ?thesis
        by (cases x) (simp_all add: print_workitem_hierarchy.simps)
    qed
  qed
next
  case (2 indent r s)
  show ?case by simp
next
  case (3 w rest indent r s)
  show ?case
  proof (cases "w_type w = Val ''HIERARCHY''")
    case False
    with "3.IH"(3) [OF False] show ?thesis by simp
  next
    case True
    show ?thesis
    proof (cases "children_nodes (w_children w)")
      case (Inl e)
      with True show ?thesis by simp
    next
      case c: (Inr children)
      obtain x s1 where cl: "children_loop children indent r s = (x, s1)"
        by (cases "children_loop children indent r s")
      with "3.IH"(1) [OF True c] have 1: "requests s1 = requests s" by simp
      show ?thesis
      proof (cases x)
        case (Inl e)
        with True c cl 1 show ?thesis by simp
      next
        case (Inr u)
        with True c cl 1 "3.IH"(2) [OF True c cl [symmetric] Inr] show ?thesis by simp
      qed
    qed
  qed
next
  case (4 indent r s)
  show ?case by simp
next
  case (5 child rest indent r s)
  obtain x s1 where p: "print_workitem_hierarchy child (indent + 1) (Some r) s = (x, s1)"
    by (cases "print_workitem_hierarchy child (indent + 1) (Some r) s")
  with "5.IH"(1) have 1: "requests s1 = requests s" by simp
  show ?case
  proof (cases x)
    case (Inl e)
    with p 1 show ?thesis by simp
  next
    case (Inr a)
    with p 1 "5.IH"(2) [OF p [symmetric] Inr] show ?thesis by simp
  qed
qed

lemma fetch_requests:
  "requests (snd (fetch_workitem_hierarchy requests_post gid page_size s)) =
     requests s @ [\<lparr>req_id = gid, req_pageSize = page_size, req_endCursor = []\<rparr>]"
  by (simp add: fetch_workitem_hierarchy_def Let_def split: sum.splits option.splits field.splits)

lemma walk_requests:
  "requests (snd (walk_workitem requests_post gid output_lines s)) =
     requests s @ [\<lparr>req_id = gid, req_pageSize = 100, req_endCursor = []\<rparr>]"
proof -
  obtain x s1 where f: "fetch_workitem_hierarchy requests_post gid 100 s = (x, s1)"
    by (cases "fetch_workitem_hierarchy requests_post gid 100 s")
  with fetch_requests [of requests_post gid 100 s]
  have q: "requests s1 = requests s @ [\<lparr>req_id = gid, req_pageSize = 100, req_endCursor = []\<rparr>]"
    by simp
  show ?thesis
  proof (cases x)
    case (Inl e)
    with f q show ?thesis by (simp add: walk_workitem_def)
  next
    case (Inr wo)
    with f q print_requests(1) show ?thesis
      by (cases wo) (simp_all add: walk_workitem_def)
  qed
qed

lemma fetch_state:
  "fetch_workitem_hierarchy requests_post gid page_size s = (x, s1) \<Longrightarrow>
   s1 = s\<lparr>requests := requests s @ [\<lparr>req_id = gid, req_pageSize = page_size, req_endCursor = []\<rparr>]\<rparr>"
  by (auto simp: fetch_workitem_hierarchy_def Let_def split: sum.splits option.splits field.splits)

lemma fetch_top:
  "fetch_workitem_hierarchy gql_top gid_top 100 s_main =
     (Inr (Some wi_top),
      s_main\<lparr>requests := [\<lparr>req_id = gid_top, req_pageSize = 100, req_endCursor = []\<rparr>]\<rparr>)"
  by (simp add: fetch_workitem_hierarchy_def Let_def gql_top_def raise_for_status_def s_main_def)

lemma walk_top:
  "walk_workitem gql_top gid_top 0 s_main =
     (Inr 0, emit_all wi_top_lines 0
               (s_main\<lparr>requests := [\<lparr>req_id = gid_top, req_pageSize = 100, req_endCursor = []\<rparr>]\<rparr>))"
  unfolding walk_workitem_def fetch_top
  by (simp add: walker_defs wi_defs wi_top_lines_def emit_is_emit_all emit_all_append)

text \<open>
  Claim C4, as stated, fails in its last part: nothing marks the truncation. For the
  sample response, which ends at the grandchild because the query asks for no deeper
  level, the walker sends one request and prints the three embedded items and nothing
  else, exactly as it does for the same response with all \<open>hasChildren\<close> flags false.
\<close>

theorem truncation_indicator_counterexample:
  "walk_workitem gql_top gid_top 0 s_main =
     (Inr 0, emit_all wi_top_lines 0
               (s_main\<lparr>requests := [\<lparr>req_id = gid_top, req_pageSize = 100, req_endCursor = []\<rparr>]\<rparr>))
   \<and> stdout (snd (walk_workitem gql_top gid_top 0 s_main)) =
       [''header'',
        ''- [Epic] #10 | OPEN | 2024-04-30 | Release'',
        ''    - [Issue] #11 | OPEN | 2024-05-01 | Backend'',
        ''        - [Task] #12 | OPEN | 2024-05-02 | Write docs'']
   \<and> walk_workitem gql_top_flat gid_top 0 s_main = walk_workitem gql_top gid_top 0 s_main"
proof -
  have 2: "stdout (snd (walk_workitem gql_top gid_top 0 s_main)) =
       [''header'',
        ''- [Epic] #10 | OPEN | 2024-04-30 | Release'',
        ''    - [Issue] #11 | OPEN | 2024-05-01 | Backend'',
        ''        - [Task] #12 | OPEN | 2024-05-02 | Write docs'']"
    unfolding walk_top by (simp add: emit_all_def s_main_def wi_top_lines_def)
  have "fetch_workitem_hierarchy gql_top_flat gid_top 100 s_main =
     (Inr (Some (with_hasChildren (Val False) wi_top)),
      s_main\<lparr>requests := [\<lparr>req_id = gid_top, req_pageSize = 100, req_endCursor = []\<rparr>]\<rparr>)"
    by (simp add: fetch_workitem_hierarchy_def Let_def gql_top_flat_def raise_for_status_def
        s_main_def)
  then have 3: "walk_workitem gql_top_flat gid_top 0 s_main = walk_workitem gql_top gid_top 0 s_main"
    unfolding walk_workitem_def fetch_top by (simp add: print_with_hasChildren(1))
  from walk_top 2 3 show ?thesis by blast
qed

text \<open>
  Claim C4, amended. For every work item the walker sends exactly one request, with page
  size 100 and an empty cursor, and when it returns it has printed and appended exactly
  the lines of the items embedded in that one response, depth first; the output does not
  depend on any \<open>hasChildren\<close> flag, so no truncation indicator is rendered.
\<close>

theorem walker_renders_embedded_levels_only:
  "requests (snd (walk_workitem requests_post gid output_lines s)) =
     requests s @ [\<lparr>req_id = gid, req_pageSize = 100, req_endCursor = []\<rparr>]
   \<and> (fetch_workitem_hierarchy requests_post gid 100 s = (Inr (Some wi), s1) \<and>
      walk_workitem requests_post gid output_lines s = (Inr a, s') \<longrightarrow>
        stdout s' = stdout s @ render wi 0 \<and>
        lists s' output_lines = lists s output_lines @ render wi 0)
   \<and> print_workitem_hierarchy (with_hasChildren h wi) indent lines s =
       print_workitem_hierarchy wi indent lines s"
proof (intro conjI impI)
  show "requests (snd (walk_workitem requests_post gid output_lines s)) =
     requests s @ [\<lparr>req_id = gid, req_pageSize = 100, req_endCursor = []\<rparr>]"
    by (rule walk_requests)
  show "print_workitem_hierarchy (with_hasChildren h wi) indent lines s =
       print_workitem_hierarchy wi indent lines s"
    by (rule print_with_hasChildren(1))
next
  assume h: "fetch_workitem_hierarchy requests_post gid 100 s = (Inr (Some wi), s1) \<and>
      walk_workitem requests_post gid output_lines s = (Inr a, s')"
  then have f: "fetch_workitem_hierarchy requests_post gid 100 s = (Inr (Some wi), s1)"
    and w: "walk_workitem requests_post gid output_lines s = (Inr a, s')"
    by blast+
  from w have p: "print_workitem_hierarchy wi 0 (Some output_lines) s1 = (Inr a, s')"
    unfolding walk_workitem_def f by simp
  from fetch_state [OF f] have s1: "stdout s1 = stdout s" "lists s1 = lists s"
    by simp_all
  from print_effect(1) [of wi 0 "Some output_lines" s1] p
  have "s' = emit_all (render wi 0) output_lines s1"
    by (simp add: lines_or_new_def)
  with s1 show "stdout s' = stdout s @ render wi 0"
    "lists s' output_lines = lists s output_lines @ render wi 0"
    by (simp_all add: emit_all_def)
qed

theorem walker_renders_embedded_levels_only_witness:
  "fetch_workitem_hierarchy gql_top gid_top 100 s_main =
     (Inr (Some wi_top),
      s_main\<lparr>requests := [\<lparr>req_id = gid_top, req_pageSize = 100, req_endCursor = []\<rparr>]\<rparr>)
   \<and> walk_workitem gql_top gid_top 0 s_main =
     (Inr 0, emit_all wi_top_lines 0
               (s_main\<lparr>requests := [\<lparr>req_id = gid_top, req_pageSize = 100, req_endCursor = []\<rparr>]\<rparr>))
   \<and> stdout (emit_all wi_top_lines 0
               (s_main\<lparr>requests := [\<lparr>req_id = gid_top, req_pageSize = 100, req_endCursor = []\<rparr>]\<rparr>))
       = stdout s_main @ wi_top_lines
   \<and> requests (snd (walk_workitem gql_top gid_top 0 s_main)) =
       requests s_main @ [\<lparr>req_id = gid_top, req_pageSize = 100, req_endCursor = []\<rparr>]"
proof -
  have e: "stdout (emit_all wi_top_lines 0
               (s_main\<lparr>requests := [\<lparr>req_id = gid_top, req_pageSize = 100, req_endCursor = []\<rparr>]\<rparr>))
       = stdout s_main @ render wi_top 0"
    using walker_renders_embedded_levels_only [of gql_top gid_top 0 s_main wi_top _ 0 _ _ 0 None]
      fetch_top walk_top by blast
  have q: "requests (snd (walk_workitem gql_top gid_top 0 s_main)) =
       requests s_main @ [\<lparr>req_id = gid_top, req_pageSize = 100, req_endCursor = []\<rparr>]"
    using walker_renders_embedded_levels_only [of gql_top gid_top 0 s_main wi_top _ 0 _ _ 0 None]
    by blast
  from e q fetch_top walk_top show ?thesis unfolding render_top by blast
qed









end
